theory Spec2Isabelle
  imports Main "HOL-Library.Word"
begin

section \<open>Data model of strip.h\<close>

text \<open>
  \<^verbatim>\<open>typedef uint8_t RGB_t[3]\<close> with the indices \<^verbatim>\<open>R = 0\<close>, \<^verbatim>\<open>G = 1\<close>, \<^verbatim>\<open>B = 2\<close>:
  a colour is the triple of its red, green and blue bytes.
\<close>

type_synonym RGB_t = "8 word \<times> 8 word \<times> 8 word"

fun rgb_at :: "RGB_t \<Rightarrow> nat \<Rightarrow> 8 word" where
  "rgb_at (r, g, b) i = (if i = 0 then r else if i = 1 then g else b)"

definition off :: RGB_t where
  "off = (0, 0, 0)"

text \<open>\<^verbatim>\<open>struct pxl { uint16_t pos; RGB_t rgb; }\<close>\<close>

record pxl =
  pxl_pos :: "16 word"
  pxl_rgb :: RGB_t

text \<open>
  \<^verbatim>\<open>struct pxbuf { uint16_t size; pxl* buf; }\<close>. The block that \<^verbatim>\<open>buf\<close> points to is
  the list of its cells; a cell that was allocated and never written is \<open>None\<close>, and
  the \<^verbatim>\<open>NULL\<close> pointer is the block with no cell.
\<close>

record pxbuf =
  pxbuf_size :: "16 word"
  pxbuf_buf :: "pxl option list"

text \<open>\<^verbatim>\<open>struct substrp { uint16_t length; RGB_t rgb; }\<close> and the buffer of them.\<close>

record substrp =
  substrp_length :: "16 word"
  substrp_rgb :: RGB_t

record substrpbuf =
  n_substrps :: "16 word"
  substrps :: "substrp list"

subsection \<open>Memory\<close>

text \<open>
  C leaves a read or write outside the allocated block, and a read of a cell never
  written, undefined. The model makes each of them an error value. \<^verbatim>\<open>malloc\<close> and
  \<^verbatim>\<open>realloc\<close> are taken to succeed and to give the number of cells asked for (the source
  does not check their result).
\<close>

datatype error = OutOfBounds | Uninitialised

definition rd :: "'a option list \<Rightarrow> nat \<Rightarrow> error + 'a" where
  "rd m i =
     (if i < length m then (case m ! i of None \<Rightarrow> Inl Uninitialised | Some v \<Rightarrow> Inr v)
      else Inl OutOfBounds)"

definition wr :: "'a option list \<Rightarrow> nat \<Rightarrow> 'a \<Rightarrow> error + 'a option list" where
  "wr m i v = (if i < length m then Inr (m[i := Some v]) else Inl OutOfBounds)"

definition realloc :: "'a option list \<Rightarrow> nat \<Rightarrow> 'a option list" where
  "realloc m n = take n m @ replicate (n - length m) None"

subsection \<open>The output peripheral and the timer\<close>

text \<open>
  The calls \<^verbatim>\<open>ws2812_prep_tx()\<close>, \<^verbatim>\<open>ws2812_tx_byte(v)\<close>, \<^verbatim>\<open>ws2812_end_tx()\<close> and
  \<^verbatim>\<open>reset_timer()\<close> are recorded, in order, in a trace.
\<close>

datatype hw = Prep_tx | Tx_byte "8 word" | End_tx | Reset_timer

text \<open>
  The channel order \<^verbatim>\<open>WS2812_COLOR_ORDER\<close> is set in config.h; strip.h derives the three
  indices \<^verbatim>\<open>WS2812_WIRING_RGB_0\<close>, \<^verbatim>\<open>_1\<close>, \<^verbatim>\<open>_2\<close> from it.
\<close>

datatype color_order = RGB | GRB | BRG | BGR

fun WS2812_WIRING_RGB_0 :: "color_order \<Rightarrow> nat" where
  "WS2812_WIRING_RGB_0 RGB = 0"
| "WS2812_WIRING_RGB_0 GRB = 1"
| "WS2812_WIRING_RGB_0 BRG = 2"
| "WS2812_WIRING_RGB_0 BGR = 2"

fun WS2812_WIRING_RGB_1 :: "color_order \<Rightarrow> nat" where
  "WS2812_WIRING_RGB_1 RGB = 1"
| "WS2812_WIRING_RGB_1 GRB = 0"
| "WS2812_WIRING_RGB_1 BRG = 0"
| "WS2812_WIRING_RGB_1 BGR = 1"

fun WS2812_WIRING_RGB_2 :: "color_order \<Rightarrow> nat" where
  "WS2812_WIRING_RGB_2 RGB = 2"
| "WS2812_WIRING_RGB_2 GRB = 2"
| "WS2812_WIRING_RGB_2 BRG = 1"
| "WS2812_WIRING_RGB_2 BGR = 0"

text \<open>The three \<^verbatim>\<open>ws2812_tx_byte\<close> calls that send one pixel.\<close>

definition tx_rgb :: "color_order \<Rightarrow> RGB_t \<Rightarrow> hw list" where
  "tx_rgb w rgb =
     [Tx_byte (rgb_at rgb (WS2812_WIRING_RGB_0 w)),
      Tx_byte (rgb_at rgb (WS2812_WIRING_RGB_1 w)),
      Tx_byte (rgb_at rgb (WS2812_WIRING_RGB_2 w))]"

text \<open>
  \<^verbatim>\<open>rgb_apply_brightness\<close> computes \<^verbatim>\<open>round(((double)brightness/255) * (double)rgb[R])\<close>
  for each channel when \<^verbatim>\<open>brightness < 255\<close>. The model rounds the exact quotient
  \<open>brightness * c / 255\<close> to the nearest integer (a tie cannot occur, 255 being odd);
  the rounding errors of the floating-point operations themselves are not modelled.
\<close>

definition scale_channel :: "8 word \<Rightarrow> 8 word \<Rightarrow> 8 word" where
  "scale_channel brightness c = of_nat ((2 * unat brightness * unat c + 255) div 510)"

fun rgb_apply_brightness :: "RGB_t \<Rightarrow> 8 word \<Rightarrow> RGB_t" where
  "rgb_apply_brightness (r, g, b) brightness =
     (if brightness < 255
      then (scale_channel brightness r, scale_channel brightness g, scale_channel brightness b)
      else (r, g, b))"

section \<open>Hue rotation\<close>

text \<open>
  \<^verbatim>\<open>rgb_apply_fade\<close>: one step on the hue wheel. The colour is updated in place in the
  source; the model returns the new colour. All arithmetic is on bytes, so
  \<^verbatim>\<open>tmp -= step_size\<close> wraps around and \<^verbatim>\<open>tmp > rgb[R]\<close> detects the wrap.
\<close>

fun rgb_apply_fade :: "RGB_t \<Rightarrow> 8 word \<Rightarrow> RGB_t" where
  "rgb_apply_fade (r0, g0, b0) step_size0 =
     (let (r, g, b) = (if r0 \<noteq> 0 \<and> g0 \<noteq> 0 \<and> b0 \<noteq> 0 then (255, 0, 0) else (r0, g0, b0));
          r2g = (g < 255 \<and> b = 0);
          step_size = (if step_size0 = 0 then 1 else step_size0)
      in if r2g then
           (let tmp = r - step_size
            in if tmp > r then (0, tmp, 255 - tmp) else (tmp, g + step_size, b))
         else if g > 0 then
           (let tmp = g - step_size
            in if tmp > g then (255 - tmp, 0, tmp) else (r, tmp, b + step_size))
         else
           (let tmp = b - step_size
            in if tmp > b then (tmp, 255 - tmp, 0) else (r + step_size, g, tmp)))"

text \<open>
  The colour that \<^verbatim>\<open>strip_scroll_rgb\<close> computes for the wheel offset \<^verbatim>\<open>val\<close>, before it
  scales it by the brightness and sends it to the strip.
\<close>

definition strip_scroll_rgb_color :: "16 word \<Rightarrow> RGB_t" where
  "strip_scroll_rgb_color val0 =
     (let val = val0 mod 765
      in if val < 255 + 1 then (ucast (255 - val), ucast val, 0)
         else if val < 2 * 255 + 1 then
           (let val = val - 255 in (0, ucast (255 - val), ucast val))
         else
           (let val = val - 510 in (ucast val, 0, ucast (255 - val))))"

text \<open>\<open>n\<close> calls of \<^verbatim>\<open>rgb_apply_fade(rgb, 1)\<close> on the same colour object.\<close>

definition fade_steps :: "nat \<Rightarrow> RGB_t \<Rightarrow> RGB_t" where
  "fade_steps n = (\<lambda>c. rgb_apply_fade c 1) ^^ n"

section \<open>Sparse pixel buffer\<close>

text \<open>\<^verbatim>\<open>pxbuf_init\<close>: \<^verbatim>\<open>buf->buf = NULL; buf->size = 0\<close>.\<close>

definition pxbuf_init :: pxbuf where
  "pxbuf_init = \<lparr>pxbuf_size = 0, pxbuf_buf = []\<rparr>"

text \<open>
  The inner loop of \<^verbatim>\<open>pxbuf_insert\<close>,
  \<^verbatim>\<open>for (uint16_t j = buf->size-1; j > i; j--)\<close>, which copies cell \<open>j - 1\<close> to cell \<open>j\<close>.
\<close>

function pxbuf_insert_shift :: "pxl option list \<Rightarrow> 16 word \<Rightarrow> 16 word \<Rightarrow> error + pxl option list" where
  "pxbuf_insert_shift m j i =
     (if j > i then
        (case rd m (unat (j - 1)) of
           Inl e \<Rightarrow> Inl e
         | Inr prev_px \<Rightarrow>
             (case wr m (unat j) prev_px of
                Inl e \<Rightarrow> Inl e
              | Inr m' \<Rightarrow> pxbuf_insert_shift m' (j - 1) i))
      else Inr m)"
  by pat_completeness auto
termination
proof (relation "measure (\<lambda>(m, j, i). unat j)")
  show "wf (measure (\<lambda>(m, j, i). unat j))" by simp
next
  fix m :: "pxl option list" and j i :: "16 word" and x2 x2a
  assume "i < j"
  then have "j \<noteq> 0" by (auto simp: word_less_nat_alt)
  then have "unat (j - 1) < unat j"
    by (simp add: unat_minus_one unat_gt_0)
  then show "((x2a, j - 1, i), (m, j, i)) \<in> measure (\<lambda>(m, j, i). unat j)" by simp
qed

text \<open>
  The outer loop of \<^verbatim>\<open>pxbuf_insert\<close>, \<^verbatim>\<open>for (uint16_t i = 0; i < buf->size; i++)\<close>, with
  the append after it. \<^verbatim>\<open>buf->size++\<close> is on a \<^verbatim>\<open>uint16_t\<close> and wraps around.
\<close>

function pxbuf_insert_scan :: "pxbuf \<Rightarrow> 16 word \<Rightarrow> RGB_t \<Rightarrow> 16 word \<Rightarrow> error + pxbuf" where
  "pxbuf_insert_scan b p c i =
     (if i < pxbuf_size b then
        (case rd (pxbuf_buf b) (unat i) of
           Inl e \<Rightarrow> Inl e
         | Inr px \<Rightarrow>
             if pxl_pos px = p then
               (case wr (pxbuf_buf b) (unat i) (px\<lparr>pxl_rgb := c\<rparr>) of
                  Inl e \<Rightarrow> Inl e
                | Inr m \<Rightarrow> Inr (b\<lparr>pxbuf_buf := m\<rparr>))
             else if pxl_pos px > p then
               (let size' = pxbuf_size b + 1;
                    m = realloc (pxbuf_buf b) (unat size')
                in case pxbuf_insert_shift m (size' - 1) i of
                     Inl e \<Rightarrow> Inl e
                   | Inr m' \<Rightarrow>
                       (case wr m' (unat i) \<lparr>pxl_pos = p, pxl_rgb = c\<rparr> of
                          Inl e \<Rightarrow> Inl e
                        | Inr m'' \<Rightarrow> Inr \<lparr>pxbuf_size = size', pxbuf_buf = m''\<rparr>))
             else pxbuf_insert_scan b p c (i + 1))
      else
        (let size' = pxbuf_size b + 1;
             m = realloc (pxbuf_buf b) (unat size')
         in case wr m (unat (size' - 1)) \<lparr>pxl_pos = p, pxl_rgb = c\<rparr> of
              Inl e \<Rightarrow> Inl e
            | Inr m' \<Rightarrow> Inr \<lparr>pxbuf_size = size', pxbuf_buf = m'\<rparr>))"
  by pat_completeness auto
termination
proof (relation "measure (\<lambda>(b, p, c, i). unat (pxbuf_size b) - unat i)")
  show "wf (measure (\<lambda>(b, p, c, i). unat (pxbuf_size b) - unat i))" by simp
next
  fix b :: pxbuf and p :: "16 word" and c :: RGB_t and i :: "16 word" and x2 :: pxl
  assume "i < pxbuf_size b"
  then have "unat (i + 1) = unat i + 1" "unat i < unat (pxbuf_size b)"
    by (simp_all add: word_less_nat_alt unat_plus_if' ) (use unsigned_less [of "pxbuf_size b", where 'a = nat] in simp)
  then show "((b, p, c, i + 1), (b, p, c, i)) \<in> measure (\<lambda>(b, p, c, i). unat (pxbuf_size b) - unat i)"
    by simp
qed

text \<open>\<^verbatim>\<open>pxbuf_insert\<close>, with its fast path for the empty buffer.\<close>

definition pxbuf_insert :: "pxbuf \<Rightarrow> 16 word \<Rightarrow> RGB_t \<Rightarrow> error + pxbuf" where
  "pxbuf_insert b p c =
     (if pxbuf_size b = 0 then
        (case wr [None] 0 \<lparr>pxl_pos = p, pxl_rgb = c\<rparr> of
           Inl e \<Rightarrow> Inl e
         | Inr m \<Rightarrow> Inr \<lparr>pxbuf_size = pxbuf_size b + 1, pxbuf_buf = m\<rparr>)
      else pxbuf_insert_scan b p c 0)"

text \<open>\<^verbatim>\<open>pxbuf_exists\<close>: the scan stops at the first stored position beyond \<open>p\<close>.\<close>

function pxbuf_exists_scan :: "pxbuf \<Rightarrow> 16 word \<Rightarrow> 16 word \<Rightarrow> error + bool" where
  "pxbuf_exists_scan b p i =
     (if i < pxbuf_size b then
        (case rd (pxbuf_buf b) (unat i) of
           Inl e \<Rightarrow> Inl e
         | Inr px \<Rightarrow>
             if pxl_pos px = p then Inr True
             else if pxl_pos px > p then Inr False
             else pxbuf_exists_scan b p (i + 1))
      else Inr False)"
  by pat_completeness auto
termination
proof (relation "measure (\<lambda>(b, p, i). unat (pxbuf_size b) - unat i)")
  show "wf (measure (\<lambda>(b, p, i). unat (pxbuf_size b) - unat i))" by simp
next
  fix b :: pxbuf and p i :: "16 word" and x2 :: pxl
  assume "i < pxbuf_size b"
  then have "unat (i + 1) = unat i + 1" "unat i < unat (pxbuf_size b)"
    by (simp_all add: word_less_nat_alt unat_plus_if' ) (use unsigned_less [of "pxbuf_size b", where 'a = nat] in simp)
  then show "((b, p, i + 1), (b, p, i)) \<in> measure (\<lambda>(b, p, i). unat (pxbuf_size b) - unat i)"
    by simp
qed

definition pxbuf_exists :: "pxbuf \<Rightarrow> 16 word \<Rightarrow> error + bool" where
  "pxbuf_exists b p = pxbuf_exists_scan b p 0"

text \<open>
  The loop of \<^verbatim>\<open>pxbuf_remove\<close>, \<^verbatim>\<open>for (uint16_t i = index; i < buf->size; i++)\<close>, run
  after \<^verbatim>\<open>buf->size--\<close>: it copies cell \<open>i + 1\<close> to cell \<open>i\<close>.
\<close>

function pxbuf_remove_shift :: "pxl option list \<Rightarrow> 16 word \<Rightarrow> 16 word \<Rightarrow> error + pxl option list" where
  "pxbuf_remove_shift m n i =
     (if i < n then
        (case rd m (unat (i + 1)) of
           Inl e \<Rightarrow> Inl e
         | Inr px \<Rightarrow>
             (case wr m (unat i) px of
                Inl e \<Rightarrow> Inl e
              | Inr m' \<Rightarrow> pxbuf_remove_shift m' n (i + 1)))
      else Inr m)"
  by pat_completeness auto
termination
proof (relation "measure (\<lambda>(m, n, i). unat n - unat i)")
  show "wf (measure (\<lambda>(m, n, i). unat n - unat i))" by simp
next
  fix m :: "pxl option list" and n i :: "16 word" and x2 x2a
  assume "i < n"
  then have "unat (i + 1) = unat i + 1" "unat i < unat n"
    by (simp_all add: word_less_nat_alt unat_plus_if' ) (use unsigned_less [of n, where 'a = nat] in simp)
  then show "((x2a, n, i + 1), (m, n, i)) \<in> measure (\<lambda>(m, n, i). unat n - unat i)"
    by simp
qed

text \<open>
  \<^verbatim>\<open>pxbuf_remove\<close>: \<^verbatim>\<open>buf->size--\<close> comes first and is not guarded, so on \<^verbatim>\<open>size == 0\<close>
  the counter wraps to 65535. When the new size is 0 the block is freed.
\<close>

definition pxbuf_remove :: "pxbuf \<Rightarrow> 16 word \<Rightarrow> error + pxbuf" where
  "pxbuf_remove b index =
     (let size' = pxbuf_size b - 1
      in if size' = 0 then Inr \<lparr>pxbuf_size = size', pxbuf_buf = []\<rparr>
         else
           (case pxbuf_remove_shift (pxbuf_buf b) size' index of
              Inl e \<Rightarrow> Inl e
            | Inr m \<Rightarrow> Inr \<lparr>pxbuf_size = size', pxbuf_buf = realloc m (unat size')\<rparr>))"

text \<open>\<^verbatim>\<open>pxbuf_remove_at\<close>: returns whether a pixel was removed, with the buffer.\<close>

function pxbuf_remove_at_scan :: "pxbuf \<Rightarrow> 16 word \<Rightarrow> 16 word \<Rightarrow> error + bool \<times> pxbuf" where
  "pxbuf_remove_at_scan b p i =
     (if i < pxbuf_size b then
        (case rd (pxbuf_buf b) (unat i) of
           Inl e \<Rightarrow> Inl e
         | Inr px \<Rightarrow>
             if pxl_pos px = p then
               (case pxbuf_remove b i of Inl e \<Rightarrow> Inl e | Inr b' \<Rightarrow> Inr (True, b'))
             else if pxl_pos px > p then Inr (False, b)
             else pxbuf_remove_at_scan b p (i + 1))
      else Inr (False, b))"
  by pat_completeness auto
termination
proof (relation "measure (\<lambda>(b, p, i). unat (pxbuf_size b) - unat i)")
  show "wf (measure (\<lambda>(b, p, i). unat (pxbuf_size b) - unat i))" by simp
next
  fix b :: pxbuf and p i :: "16 word" and x2 :: pxl
  assume "i < pxbuf_size b"
  then have "unat (i + 1) = unat i + 1" "unat i < unat (pxbuf_size b)"
    by (simp_all add: word_less_nat_alt unat_plus_if' ) (use unsigned_less [of "pxbuf_size b", where 'a = nat] in simp)
  then show "((b, p, i + 1), (b, p, i)) \<in> measure (\<lambda>(b, p, i). unat (pxbuf_size b) - unat i)"
    by simp
qed

definition pxbuf_remove_at :: "pxbuf \<Rightarrow> 16 word \<Rightarrow> error + bool \<times> pxbuf" where
  "pxbuf_remove_at b p = pxbuf_remove_at_scan b p 0"

section \<open>Strip projection\<close>

text \<open>
  Every routine reads the global \<^verbatim>\<open>strip_size\<close>; the model takes it as an argument,
  with the channel order \<open>w\<close>, and returns the trace of the calls it makes.
\<close>

text \<open>\<^verbatim>\<open>strip_apply_all\<close>: \<^verbatim>\<open>for (uint16_t i = 0; i < strip_size; i++)\<close>.\<close>

function strip_apply_all_loop :: "color_order \<Rightarrow> 16 word \<Rightarrow> RGB_t \<Rightarrow> 16 word \<Rightarrow> hw list \<Rightarrow> hw list" where
  "strip_apply_all_loop w strip_size rgb i tr =
     (if i < strip_size then strip_apply_all_loop w strip_size rgb (i + 1) (tr @ tx_rgb w rgb)
      else tr)"
  by pat_completeness auto
termination
proof (relation "measure (\<lambda>(w, strip_size, rgb, i, tr). unat strip_size - unat i)")
  show "wf (measure (\<lambda>(w, strip_size, rgb, i, tr). unat strip_size - unat i))" by simp
next
  fix w :: color_order and strip_size i :: "16 word" and rgb :: RGB_t and tr :: "hw list"
  assume "i < strip_size"
  then have "unat (i + 1) = unat i + 1" "unat i < unat strip_size"
    by (simp_all add: word_less_nat_alt unat_plus_if' ) (use unsigned_less [of strip_size, where 'a = nat] in simp)
  then show "((w, strip_size, rgb, i + 1, tr @ tx_rgb w rgb), (w, strip_size, rgb, i, tr))
      \<in> measure (\<lambda>(w, strip_size, rgb, i, tr). unat strip_size - unat i)"
    by simp
qed

definition strip_apply_all :: "color_order \<Rightarrow> 16 word \<Rightarrow> RGB_t \<Rightarrow> hw list" where
  "strip_apply_all w strip_size rgb = strip_apply_all_loop w strip_size rgb 0 [Prep_tx] @ [End_tx]"

text \<open>
  \<^verbatim>\<open>strip_apply_substrpbuf\<close>: the inner loop sends one segment,
  \<^verbatim>\<open>for (uint16_t j = 0; j < substrpbuf.substrps[i].length; j++)\<close>; the outer loop walks
  the segments.
\<close>

function strip_apply_substrp :: "color_order \<Rightarrow> substrp \<Rightarrow> 16 word \<Rightarrow> hw list \<Rightarrow> hw list" where
  "strip_apply_substrp w s j tr =
     (if j < substrp_length s then strip_apply_substrp w s (j + 1) (tr @ tx_rgb w (substrp_rgb s))
      else tr)"
  by pat_completeness auto
termination
proof (relation "measure (\<lambda>(w, s, j, tr). unat (substrp_length s) - unat j)")
  show "wf (measure (\<lambda>(w, s, j, tr). unat (substrp_length s) - unat j))" by simp
next
  fix w :: color_order and s :: substrp and j :: "16 word" and tr :: "hw list"
  assume "j < substrp_length s"
  then have "unat (j + 1) = unat j + 1" "unat j < unat (substrp_length s)"
    by (simp_all add: word_less_nat_alt unat_plus_if' ) (use unsigned_less [of "substrp_length s", where 'a = nat] in simp)
  then show "((w, s, j + 1, tr @ tx_rgb w (substrp_rgb s)), (w, s, j, tr))
      \<in> measure (\<lambda>(w, s, j, tr). unat (substrp_length s) - unat j)"
    by simp
qed

function strip_apply_substrpbuf_loop :: "color_order \<Rightarrow> substrpbuf \<Rightarrow> 16 word \<Rightarrow> hw list \<Rightarrow> error + hw list" where
  "strip_apply_substrpbuf_loop w sb i tr =
     (if i < n_substrps sb then
        (if unat i < length (substrps sb) then
           strip_apply_substrpbuf_loop w sb (i + 1) (strip_apply_substrp w (substrps sb ! unat i) 0 tr)
         else Inl OutOfBounds)
      else Inr tr)"
  by pat_completeness auto
termination
proof (relation "measure (\<lambda>(w, sb, i, tr). unat (n_substrps sb) - unat i)")
  show "wf (measure (\<lambda>(w, sb, i, tr). unat (n_substrps sb) - unat i))" by simp
next
  fix w :: color_order and sb :: substrpbuf and i :: "16 word" and tr :: "hw list"
  assume "i < n_substrps sb"
  then have "unat (i + 1) = unat i + 1" "unat i < unat (n_substrps sb)"
    by (simp_all add: word_less_nat_alt unat_plus_if' ) (use unsigned_less [of "n_substrps sb", where 'a = nat] in simp)
  then show "((w, sb, i + 1, strip_apply_substrp w (substrps sb ! unat i) 0 tr), (w, sb, i, tr))
      \<in> measure (\<lambda>(w, sb, i, tr). unat (n_substrps sb) - unat i)"
    by simp
qed

definition strip_apply_substrpbuf :: "color_order \<Rightarrow> substrpbuf \<Rightarrow> error + hw list" where
  "strip_apply_substrpbuf w sb =
     (case strip_apply_substrpbuf_loop w sb 0 [Prep_tx] of
        Inl e \<Rightarrow> Inl e
      | Inr tr \<Rightarrow> Inr (tr @ [End_tx]))"

text \<open>
  \<^verbatim>\<open>strip_apply_RGBbuf\<close>: the loop counter is a \<^verbatim>\<open>uint8_t\<close> compared with the
  \<^verbatim>\<open>uint16_t strip_size\<close>, so \<^verbatim>\<open>i++\<close> wraps at 256 and the loop may not end: the
  result is \<open>None\<close> when it does not return. The dense array is the list of its
  colours (\<^verbatim>\<open>init_RGBbuf\<close> zeroes all of them).
\<close>

partial_function (option) strip_apply_RGBbuf_loop ::
  "color_order \<Rightarrow> 16 word \<Rightarrow> RGB_t list \<Rightarrow> 8 word \<Rightarrow> hw list \<Rightarrow> (error + hw list) option" where
  "strip_apply_RGBbuf_loop w strip_size RGBbuf i tr =
     (if ucast i < strip_size then
        (if unat i < length RGBbuf then
           strip_apply_RGBbuf_loop w strip_size RGBbuf (i + 1) (tr @ tx_rgb w (RGBbuf ! unat i))
         else Some (Inl OutOfBounds))
      else Some (Inr tr))"

definition strip_apply_RGBbuf :: "color_order \<Rightarrow> 16 word \<Rightarrow> RGB_t list \<Rightarrow> (error + hw list) option" where
  "strip_apply_RGBbuf w strip_size RGBbuf =
     (case strip_apply_RGBbuf_loop w strip_size RGBbuf 0 [Prep_tx] of
        None \<Rightarrow> None
      | Some (Inl e) \<Rightarrow> Some (Inl e)
      | Some (Inr tr) \<Rightarrow> Some (Inr (tr @ [End_tx])))"

text \<open>
  \<^verbatim>\<open>strip_distribute_rgb\<close>: the loop fills the segment buffer, cell \<open>i\<close> in round
  \<open>i\<close>; the buffer is then projected and freed. The colour array is a list, and a
  read beyond it is an error.
\<close>

function strip_distribute_rgb_loop ::
  "16 word \<Rightarrow> RGB_t list \<Rightarrow> 16 word \<Rightarrow> 16 word \<Rightarrow> substrp list \<Rightarrow> error + substrp list" where
  "strip_distribute_rgb_loop strip_size rgb sz i acc =
     (if i < sz then
        (if unat i < length rgb then
           (let len = strip_size div sz;
                len' = (if i = sz - 1 then len + strip_size mod sz else len)
            in strip_distribute_rgb_loop strip_size rgb sz (i + 1)
                 (acc @ [\<lparr>substrp_length = len', substrp_rgb = rgb ! unat i\<rparr>]))
         else Inl OutOfBounds)
      else Inr acc)"
  by pat_completeness auto
termination
proof (relation "measure (\<lambda>(strip_size, rgb, sz, i, acc). unat sz - unat i)")
  show "wf (measure (\<lambda>(strip_size, rgb, sz, i, acc). unat sz - unat i))" by simp
next
  fix strip_size sz i x xa :: "16 word" and rgb :: "RGB_t list" and acc :: "substrp list"
  assume "i < sz"
  then have "unat (i + 1) = unat i + 1" "unat i < unat sz"
    by (simp_all add: word_less_nat_alt unat_plus_if' ) (use unsigned_less [of sz, where 'a = nat] in simp)
  then show "((strip_size, rgb, sz, i + 1, acc @ [\<lparr>substrp_length = xa, substrp_rgb = rgb ! unat i\<rparr>]),
       (strip_size, rgb, sz, i, acc))
      \<in> measure (\<lambda>(strip_size, rgb, sz, i, acc). unat sz - unat i)"
    by simp
qed

text \<open>The segment buffer that \<^verbatim>\<open>strip_distribute_rgb\<close> builds.\<close>

definition strip_distribute_rgb_buf :: "16 word \<Rightarrow> RGB_t list \<Rightarrow> 16 word \<Rightarrow> error + substrpbuf" where
  "strip_distribute_rgb_buf strip_size rgb sz =
     (case strip_distribute_rgb_loop strip_size rgb sz 0 [] of
        Inl e \<Rightarrow> Inl e
      | Inr segs \<Rightarrow> Inr \<lparr>n_substrps = sz, substrps = segs\<rparr>)"

definition strip_distribute_rgb :: "color_order \<Rightarrow> 16 word \<Rightarrow> RGB_t list \<Rightarrow> 16 word \<Rightarrow> error + hw list" where
  "strip_distribute_rgb w strip_size rgb sz =
     (case strip_distribute_rgb_buf strip_size rgb sz of
        Inl e \<Rightarrow> Inl e
      | Inr sb \<Rightarrow> strip_apply_substrpbuf w sb)"

text \<open>
  \<^verbatim>\<open>strip_apply_pxbuf\<close>: \<open>i\<close> is the physical position and \<open>px_i\<close> the cursor into
  the sparse buffer. \<^verbatim>\<open>px_i < buf->size && i == buf->buf[px_i].pos\<close> reads the cell only
  when the cursor is inside the buffer.
\<close>

function strip_apply_pxbuf_loop ::
  "color_order \<Rightarrow> 16 word \<Rightarrow> pxbuf \<Rightarrow> 16 word \<Rightarrow> 16 word \<Rightarrow> hw list \<Rightarrow> error + hw list" where
  "strip_apply_pxbuf_loop w strip_size b i px_i tr =
     (if i < strip_size then
        (if px_i < pxbuf_size b then
           (case rd (pxbuf_buf b) (unat px_i) of
              Inl e \<Rightarrow> Inl e
            | Inr px \<Rightarrow>
                if i = pxl_pos px then
                  strip_apply_pxbuf_loop w strip_size b (i + 1) (px_i + 1) (tr @ tx_rgb w (pxl_rgb px))
                else
                  strip_apply_pxbuf_loop w strip_size b (i + 1) px_i (tr @ [Tx_byte 0, Tx_byte 0, Tx_byte 0]))
         else
           strip_apply_pxbuf_loop w strip_size b (i + 1) px_i (tr @ [Tx_byte 0, Tx_byte 0, Tx_byte 0]))
      else Inr tr)"
  by pat_completeness auto
termination
proof (relation "measure (\<lambda>(w, strip_size, b, i, px_i, tr). unat strip_size - unat i)")
  show "wf (measure (\<lambda>(w, strip_size, b, i, px_i, tr). unat strip_size - unat i))" by simp
next
  fix w :: color_order and strip_size i px_i :: "16 word" and b :: pxbuf and tr :: "hw list"
    and x2 :: pxl
  assume "i < strip_size"
  then have *: "unat (i + 1) = unat i + 1" "unat i < unat strip_size"
    by (simp_all add: word_less_nat_alt unat_plus_if' ) (use unsigned_less [of strip_size, where 'a = nat] in simp)
  from * show "((w, strip_size, b, i + 1, px_i + 1, tr @ tx_rgb w (pxl_rgb x2)), (w, strip_size, b, i, px_i, tr))
      \<in> measure (\<lambda>(w, strip_size, b, i, px_i, tr). unat strip_size - unat i)"
    by simp
  from * show "((w, strip_size, b, i + 1, px_i, tr @ [Tx_byte 0, Tx_byte 0, Tx_byte 0]), (w, strip_size, b, i, px_i, tr))
      \<in> measure (\<lambda>(w, strip_size, b, i, px_i, tr). unat strip_size - unat i)"
    by simp
  from * show "((w, strip_size, b, i + 1, px_i, tr @ [Tx_byte 0, Tx_byte 0, Tx_byte 0]), (w, strip_size, b, i, px_i, tr))
      \<in> measure (\<lambda>(w, strip_size, b, i, px_i, tr). unat strip_size - unat i)"
    by simp
qed

definition strip_apply_pxbuf :: "color_order \<Rightarrow> 16 word \<Rightarrow> pxbuf \<Rightarrow> error + hw list" where
  "strip_apply_pxbuf w strip_size b =
     (if pxbuf_size b = 0 then Inr (strip_apply_all w strip_size off)
      else
        (case strip_apply_pxbuf_loop w strip_size b 0 0 [Prep_tx] of
           Inl e \<Rightarrow> Inl e
         | Inr tr \<Rightarrow> Inr (tr @ [End_tx])))"

section \<open>Animation engines\<close>

text \<open>
  \<^verbatim>\<open>rgb_apply_brightness_fade\<close> keeps \<^verbatim>\<open>static bool inc\<close> and \<^verbatim>\<open>static int brightness\<close>
  between calls. The firmware is built for AVR, where \<^verbatim>\<open>int\<close> has 16 bits:
  \<^verbatim>\<open>brightness += step_size\<close> with the \<^verbatim>\<open>uint16_t step_size\<close> is a 16-bit addition, and the
  comparisons of \<^verbatim>\<open>brightness\<close> are signed.
\<close>

record fade_state =
  inc :: bool
  brightness :: "16 word"

definition fade_state_init :: fade_state where
  "fade_state_init = \<lparr>inc = True, brightness = 0\<rparr>"

text \<open>
  \<^verbatim>\<open>rgb_apply_brightness\<close> works in floating point, so the model of the fade takes the
  scaling as the parameter \<open>scale\<close>: what is proved of the brightness and of the return
  value holds whatever the scaling computes. The result is the return value,
  \<^verbatim>\<open>rgb_out\<close> and the new static state.
\<close>

definition rgb_apply_brightness_fade ::
  "(RGB_t \<Rightarrow> 8 word \<Rightarrow> RGB_t) \<Rightarrow> RGB_t \<Rightarrow> 16 word \<Rightarrow> bool \<Rightarrow> fade_state \<Rightarrow> bool \<times> RGB_t \<times> fade_state" where
  "rgb_apply_brightness_fade scale rgb_in step_size start st0 =
     (let st = (if start then \<lparr>inc = True, brightness = 0\<rparr> else st0);
          st' =
            (if inc st then
               (let b = brightness st + step_size;
                    b' = (if 255 \<le>s b then 255 else b)
                in \<lparr>inc = b' <s 255, brightness = b'\<rparr>)
             else
               (let b = brightness st - step_size;
                    b' = (if b <s 0 then 0 else b)
                in \<lparr>inc = (b' = 0), brightness = b'\<rparr>))
      in (brightness st' = 0, scale rgb_in (ucast (brightness st')), st'))"

text \<open>
  \<^verbatim>\<open>strip_override\<close> keeps \<^verbatim>\<open>static uint16_t pos\<close>. The painting loop is
  \<^verbatim>\<open>for (uint16_t i = 0; i <= pos; i++)\<close>, which does not end when \<open>pos\<close> is 65535.
\<close>

partial_function (option) strip_override_loop ::
  "color_order \<Rightarrow> RGB_t \<Rightarrow> 16 word \<Rightarrow> 16 word \<Rightarrow> hw list \<Rightarrow> hw list option" where
  "strip_override_loop w rgb p i tr =
     (if i \<le> p then strip_override_loop w rgb p (i + 1) (tr @ tx_rgb w rgb) else Some tr)"

text \<open>
  Modelled from the spec: the timer service of time.h, whose \<^verbatim>\<open>ms_passed()\<close> gives the
  milliseconds since the last \<^verbatim>\<open>reset_timer()\<close> as a \<^verbatim>\<open>uint32\<close>. The reading taken by
  a call is its argument \<open>ms\<close>. The result is the return value, the new \<^verbatim>\<open>pos\<close> and
  the trace.
\<close>

definition strip_override ::
  "color_order \<Rightarrow> 16 word \<Rightarrow> RGB_t \<Rightarrow> 16 word \<Rightarrow> 32 word \<Rightarrow> 16 word \<Rightarrow> (bool \<times> 16 word \<times> hw list) option" where
  "strip_override w strip_size rgb delay ms p =
     (if p = strip_size then Some (True, 0, [])
      else if ms < ucast delay then Some (False, p, [])
      else
        (case strip_override_loop w rgb p 0 [Prep_tx] of
           None \<Rightarrow> None
         | Some tr \<Rightarrow> Some (False, p + 1, tr @ [End_tx, Reset_timer])))"

section \<open>Notions used to state the properties\<close>

text \<open>
  A colour on the hue wheel: the channels add up to 255 and one of them is dark.
\<close>

definition hue_inv :: "RGB_t \<Rightarrow> bool" where
  "hue_inv c = (case c of (r, g, b) \<Rightarrow> unat r + unat g + unat b = 255 \<and> (r = 0 \<or> g = 0 \<or> b = 0))"

text \<open>A natural number below 256 as a byte.\<close>

definition byte :: "nat \<Rightarrow> 8 word" where
  "byte n = of_nat n"

text \<open>
  The hue wheel in closed form, and the position on it that a colour of the wheel has.
\<close>

definition wheel :: "nat \<Rightarrow> RGB_t" where
  "wheel k =
     (if k \<le> 255 then (byte (255 - k), byte k, 0)
      else if k \<le> 510 then (0, byte (510 - k), byte (k - 255))
      else (byte (k - 510), 0, byte (765 - k)))"

definition wheel_pos :: "RGB_t \<Rightarrow> nat" where
  "wheel_pos c =
     (case c of (r, g, b) \<Rightarrow>
        if b = 0 then unat g else if r = 0 then 255 + unat b else 510 + unat r)"

text \<open>
  Segment \<open>k\<close> of the buffer that \<^verbatim>\<open>strip_distribute_rgb\<close> builds, as its loop
  writes it in round \<open>k\<close>.
\<close>

definition distribute_seg :: "16 word \<Rightarrow> RGB_t list \<Rightarrow> 16 word \<Rightarrow> nat \<Rightarrow> substrp" where
  "distribute_seg L rgb sz k =
     \<lparr>substrp_length = (if (of_nat k :: 16 word) = sz - 1 then L div sz + L mod sz else L div sz),
      substrp_rgb = rgb ! k\<rparr>"

text \<open>
  A well-formed buffer: the buffer whose cells hold the pixels \<open>ps\<close>, all of them
  written, and whose \<^verbatim>\<open>size\<close> is their number.
\<close>

definition pxbuf_of :: "pxl list \<Rightarrow> pxbuf" where
  "pxbuf_of ps = \<lparr>pxbuf_size = of_nat (length ps), pxbuf_buf = map Some ps\<rparr>"

text \<open>
  Upsert, search and removal on the list of pixels. They say what \<^verbatim>\<open>pxbuf_insert\<close>,
  \<^verbatim>\<open>pxbuf_exists\<close> and \<^verbatim>\<open>pxbuf_remove\<close> compute on a well-formed buffer.
\<close>

fun pxl_insert :: "16 word \<Rightarrow> RGB_t \<Rightarrow> pxl list \<Rightarrow> pxl list" where
  "pxl_insert p c [] = [\<lparr>pxl_pos = p, pxl_rgb = c\<rparr>]"
| "pxl_insert p c (x # xs) =
     (if pxl_pos x = p then x\<lparr>pxl_rgb := c\<rparr> # xs
      else if pxl_pos x > p then \<lparr>pxl_pos = p, pxl_rgb = c\<rparr> # x # xs
      else x # pxl_insert p c xs)"

fun pxl_exists :: "16 word \<Rightarrow> pxl list \<Rightarrow> bool" where
  "pxl_exists p [] = False"
| "pxl_exists p (x # xs) =
     (if pxl_pos x = p then True else if pxl_pos x > p then False else pxl_exists p xs)"

definition pxl_remove :: "nat \<Rightarrow> pxl list \<Rightarrow> pxl list" where
  "pxl_remove i ps = (if i < length ps then take i ps @ drop (Suc i) ps else butlast ps)"

text \<open>The positions stored in a buffer are strictly ascending (so no position is stored twice).\<close>

definition pxbuf_sorted :: "pxbuf \<Rightarrow> bool" where
  "pxbuf_sorted b =
     (unat (pxbuf_size b) = length (pxbuf_buf b) \<and> None \<notin> set (pxbuf_buf b) \<and>
      sorted_wrt (<) (map (\<lambda>x. pxl_pos (the x)) (pxbuf_buf b)))"

text \<open>
  A run of buffer operations: the calls a client makes, one after the other, on the
  same buffer. \<open>pxbuf_run\<close> lists the result of each call; a call that reaches
  undefined behaviour ends the run.
\<close>

datatype pxop = Insert "16 word" RGB_t | Remove "16 word"

fun pxbuf_step :: "pxbuf \<Rightarrow> pxop \<Rightarrow> error + pxbuf" where
  "pxbuf_step b (Insert p c) = pxbuf_insert b p c"
| "pxbuf_step b (Remove i) = pxbuf_remove b i"

fun pxbuf_run :: "pxbuf \<Rightarrow> pxop list \<Rightarrow> (error + pxbuf) list" where
  "pxbuf_run b [] = []"
| "pxbuf_run b (x # xs) =
     (case pxbuf_step b x of Inl e \<Rightarrow> [Inl e] | Inr b' \<Rightarrow> Inr b' # pxbuf_run b' xs)"

text \<open>The result of a call is a buffer with strictly ascending positions.\<close>

fun sorted_result :: "error + pxbuf \<Rightarrow> bool" where
  "sorted_result (Inl e) = False"
| "sorted_result (Inr b) = pxbuf_sorted b"

text \<open>
  What a call needs of the buffer it is applied to: \<^verbatim>\<open>pxbuf_remove\<close> a pixel to remove,
  \<^verbatim>\<open>pxbuf_insert\<close> a \<^verbatim>\<open>size\<close> that can still be incremented. A run is admissible when
  each of its calls finds that.
\<close>

fun pxop_pre :: "pxbuf \<Rightarrow> pxop \<Rightarrow> bool" where
  "pxop_pre b (Insert p c) = (pxbuf_size b < 65535)"
| "pxop_pre b (Remove i) = (pxbuf_size b \<noteq> 0)"

fun pxbuf_admissible :: "pxbuf \<Rightarrow> pxop list \<Rightarrow> bool" where
  "pxbuf_admissible b [] = True"
| "pxbuf_admissible b (x # xs) =
     (pxop_pre b x \<and>
      (case pxbuf_step b x of Inl e \<Rightarrow> True | Inr b' \<Rightarrow> pxbuf_admissible b' xs))"

text \<open>
  The projection of a sparse buffer, as the specification words it: walk the physical
  positions; at each, if the next pending pixel is at that position, send its colour
  and move on to the next pending pixel, otherwise send black. \<open>n\<close> positions remain,
  \<open>i\<close> is the current one.
\<close>

fun apply_sparse :: "color_order \<Rightarrow> nat \<Rightarrow> nat \<Rightarrow> pxl list \<Rightarrow> hw list" where
  "apply_sparse w 0 i pending = []"
| "apply_sparse w (Suc n) i [] = [Tx_byte 0, Tx_byte 0, Tx_byte 0] @ apply_sparse w n (Suc i) []"
| "apply_sparse w (Suc n) i (px # pending) =
     (if unat (pxl_pos px) = i then tx_rgb w (pxl_rgb px) @ apply_sparse w n (Suc i) pending
      else [Tx_byte 0, Tx_byte 0, Tx_byte 0] @ apply_sparse w n (Suc i) (px # pending))"

text \<open>A natural number below 65536 as a 16-bit value.\<close>

definition w16 :: "nat \<Rightarrow> 16 word" where
  "w16 n = of_nat n"

text \<open>
  A run of \<^verbatim>\<open>strip_override\<close>: the calls of the host loop, one after the other, each
  with the timer reading it finds. \<open>strip_override_run\<close> gives the return value and the
  trace of every call, and the cursor after the last. \<open>ticks\<close> counts the calls that
  pass the delay check.
\<close>

definition ticks :: "16 word \<Rightarrow> 32 word list \<Rightarrow> nat" where
  "ticks delay mss = length (filter (\<lambda>ms. \<not> ms < ucast delay) mss)"

fun strip_override_run ::
  "color_order \<Rightarrow> 16 word \<Rightarrow> RGB_t \<Rightarrow> 16 word \<Rightarrow> 16 word \<Rightarrow> 32 word list \<Rightarrow>
   ((bool \<times> hw list) list \<times> 16 word) option" where
  "strip_override_run w strip_size rgb delay p [] = Some ([], p)"
| "strip_override_run w strip_size rgb delay p (ms # mss) =
     (case strip_override w strip_size rgb delay ms p of
        None \<Rightarrow> None
      | Some (ret, p', tr) \<Rightarrow>
          (case strip_override_run w strip_size rgb delay p' mss of
             None \<Rightarrow> None
           | Some (rs, pf) \<Rightarrow> Some ((ret, tr) # rs, pf)))"

text \<open>
  What the calls of a wipe are expected to do, from cursor \<open>k\<close>: a call before the delay
  has passed does nothing; a call that passes it paints the pixels \<open>0..k\<close>, resets
  the timer and moves the cursor to \<open>k + 1\<close>. Each returns false.
\<close>

fun wipe_calls :: "color_order \<Rightarrow> RGB_t \<Rightarrow> 16 word \<Rightarrow> nat \<Rightarrow> 32 word list \<Rightarrow> (bool \<times> hw list) list" where
  "wipe_calls w rgb delay k [] = []"
| "wipe_calls w rgb delay k (ms # mss) =
     (if ms < ucast delay then (False, []) # wipe_calls w rgb delay k mss
      else (False, [Prep_tx] @ concat (replicate (Suc k) (tx_rgb w rgb)) @ [End_tx, Reset_timer])
             # wipe_calls w rgb delay (Suc k) mss)"

text \<open>
  A run of \<^verbatim>\<open>rgb_apply_brightness_fade\<close> with one step size: call 1 has \<^verbatim>\<open>start = true\<close>,
  the later calls \<^verbatim>\<open>start = false\<close>. \<open>fade_run \<dots> n\<close> is the result of call \<open>n + 1\<close>.
\<close>

fun fade_run ::
  "(RGB_t \<Rightarrow> 8 word \<Rightarrow> RGB_t) \<Rightarrow> RGB_t \<Rightarrow> 16 word \<Rightarrow> fade_state \<Rightarrow> nat \<Rightarrow> bool \<times> RGB_t \<times> fade_state" where
  "fade_run scale rgb s st0 0 = rgb_apply_brightness_fade scale rgb s True st0"
| "fade_run scale rgb s st0 (Suc n) =
     rgb_apply_brightness_fade scale rgb s False (snd (snd (fade_run scale rgb s st0 n)))"

text \<open>
  The triangle wave in closed form, for the step size \<open>s\<close>. The rising phase takes
  \<open>fade_up s\<close> calls (the least number \<open>u\<close> with \<open>u * s \<ge> 255\<close>), the falling phase as
  many; \<open>triangle s k\<close> is the brightness after \<open>k\<close> calls: \<open>j * s\<close> capped at 255 in
  call \<open>j\<close> of the rise, 255 less \<open>j * s\<close>, stopped at 0, in call \<open>j\<close> of the fall.
\<close>

definition fade_up :: "nat \<Rightarrow> nat" where
  "fade_up s = 254 div s + 1"

definition triangle :: "nat \<Rightarrow> nat \<Rightarrow> nat" where
  "triangle s k =
     (let u = fade_up s; j = k mod (2 * u)
      in if j \<le> u then min 255 (j * s) else 255 - min 255 ((j - u) * s))"

section \<open>Simplifier setup\<close>

text \<open>The equations of the loops are unfolded one round at a time, by hand.\<close>

declare pxbuf_insert_shift.simps [simp del]
declare pxbuf_insert_scan.simps [simp del]
declare pxbuf_exists_scan.simps [simp del]
declare pxbuf_remove_shift.simps [simp del]
declare pxbuf_remove_at_scan.simps [simp del]
declare strip_apply_all_loop.simps [simp del]
declare strip_apply_substrp.simps [simp del]
declare strip_apply_substrpbuf_loop.simps [simp del]
declare strip_distribute_rgb_loop.simps [simp del]
declare strip_apply_pxbuf_loop.simps [simp del]

section \<open>Byte arithmetic\<close>

lemma unat_byte_lt: "unat x < 256" for x :: "8 word"
  using unsigned_less [of x, where 'a = nat] by simp

lemma byte_zero_iff: "(x = 0) = (unat x = 0)" for x :: "8 word"
  by (simp add: unat_0_iff)

lemma sub_wrap_iff: "s \<noteq> 0 \<Longrightarrow> (x < x - s) = (unat x < unat s)" for x s :: "8 word"
  using unat_byte_lt [of x] unat_byte_lt [of s]
  by (auto simp: word_less_nat_alt unat_sub_if' byte_zero_iff)

lemma unat_sub_nowrap: "unat s \<le> unat x \<Longrightarrow> unat (x - s) = unat x - unat s" for x s :: "8 word"
  by (simp add: unat_sub_if')

lemma unat_sub_wrap: "unat x < unat s \<Longrightarrow> unat (x - s) = 256 + unat x - unat s" for x s :: "8 word"
  by (simp add: unat_sub_if')

lemma unat_255_minus: "unat (255 - t) = 255 - unat t" for t :: "8 word"
  using unat_byte_lt [of t] by (simp add: unat_sub_if')

lemma unat_add_nowrap: "unat g + unat s \<le> 255 \<Longrightarrow> unat (g + s) = unat g + unat s" for g s :: "8 word"
  by (simp add: unat_plus_if')

lemma unat_byte: "n < 256 \<Longrightarrow> unat (byte n) = n"
  by (simp add: byte_def unat_of_nat)

lemma byte_Suc: "byte (Suc n) = byte n + 1"
  by (simp add: byte_def)

lemma byte_0: "byte 0 = 0" and byte_255: "byte 255 = 255"
  by (simp_all add: byte_def)

lemma byte_eq_0_iff: "n < 256 \<Longrightarrow> (byte n = 0) = (n = 0)"
  using unat_byte [of n] by (auto simp: byte_zero_iff)

lemma ucast_byte: "unat w = n \<Longrightarrow> n < 256 \<Longrightarrow> (ucast w :: 8 word) = byte n" for w :: "16 word"
  by (simp add: word_unat_eq_iff unsigned_ucast_eq unat_byte take_bit_eq_mod)

lemma unat_w16: "k < 65536 \<Longrightarrow> unat (of_nat k :: 16 word) = k"
  by (simp add: unat_of_nat)

lemma unat_w16_lt: "unat x < 65536" for x :: "16 word"
  using unsigned_less [of x, where 'a = nat] by simp

lemma w16_Suc: "i < n \<Longrightarrow> unat (i + 1) = Suc (unat i)" for i n :: "16 word"
  using unat_w16_lt [of n] by (simp add: word_less_nat_alt unat_plus_if')

lemma unat_sub16: "unat y \<le> unat x \<Longrightarrow> unat (x - y) = unat x - unat y" for x y :: "16 word"
  by (simp add: unat_sub_if')

section \<open>Hue rotation: the three sectors of the wheel\<close>

lemma fade_zero_step: "rgb_apply_fade c 0 = rgb_apply_fade c 1"
  by (cases c) (simp add: Let_def)

lemma fade_r2g:
  "g < 255 \<Longrightarrow> s \<noteq> 0 \<Longrightarrow>
   rgb_apply_fade (r, g, 0) s =
     (if unat r < unat s then (0, r - s, 255 - (r - s)) else (r - s, g + s, 0))"
  by (simp add: Let_def sub_wrap_iff)

lemma fade_g2b:
  "g \<noteq> 0 \<Longrightarrow> g = 255 \<or> b \<noteq> 0 \<Longrightarrow> s \<noteq> 0 \<Longrightarrow>
   rgb_apply_fade (0, g, b) s =
     (if unat g < unat s then (255 - (g - s), 0, g - s) else (0, g - s, b + s))"
  by (auto simp add: Let_def sub_wrap_iff word_greater_zero_iff)

lemma fade_b2r:
  "b \<noteq> 0 \<Longrightarrow> s \<noteq> 0 \<Longrightarrow>
   rgb_apply_fade (r, 0, b) s =
     (if unat b < unat s then (b - s, 255 - (b - s), 0) else (r + s, 0, b - s))"
  by (simp add: Let_def sub_wrap_iff)

declare rgb_apply_fade.simps [simp del]

lemma hue_inv_cases:
  assumes "hue_inv (r, g, b)"
  obtains (r2g) "b = 0" "g < 255" "unat r + unat g = 255"
        | (g2b) "r = 0" "g \<noteq> 0" "g = 255 \<or> b \<noteq> 0" "unat g + unat b = 255"
        | (b2r) "g = 0" "b \<noteq> 0" "unat r + unat b = 255"
proof -
  from assms have sum: "unat r + unat g + unat b = 255" and z: "r = 0 \<or> g = 0 \<or> b = 0"
    by (simp_all add: hue_inv_def)
  show thesis
  proof (cases "b = 0")
    case True
    show thesis
    proof (cases "g = 255")
      case True
      with \<open>b = 0\<close> sum have "r = 0" by (simp add: byte_zero_iff)
      with True \<open>b = 0\<close> show thesis by (intro g2b) simp_all
    next
      case False
      then have "g < 255" using unat_byte_lt [of g]
        by (simp add: word_less_nat_alt word_unat_eq_iff)
      with True sum show thesis by (intro r2g) simp_all
    qed
  next
    case False
    show thesis
    proof (cases "g = 0")
      case True
      with False sum show thesis by (intro b2r) simp_all
    next
      case g: False
      with False z have "r = 0" by blast
      with g False sum show thesis by (intro g2b) simp_all
    qed
  qed
qed

lemma hue_inv_step_nz:
  assumes "hue_inv (r, g, b)" "s \<noteq> 0"
  shows "hue_inv (rgb_apply_fade (r, g, b) s)"
  using assms(1)
proof (cases rule: hue_inv_cases)
  case r2g
  with assms(2) show ?thesis
    using unat_byte_lt [of s]
    by (simp add: fade_r2g hue_inv_def unat_255_minus unat_sub_wrap unat_sub_nowrap unat_add_nowrap)
next
  case g2b
  with assms(2) show ?thesis
    using unat_byte_lt [of s]
    by (simp add: fade_g2b hue_inv_def unat_255_minus unat_sub_wrap unat_sub_nowrap unat_add_nowrap)
next
  case b2r
  with assms(2) show ?thesis
    using unat_byte_lt [of s]
    by (simp add: fade_b2r hue_inv_def unat_255_minus unat_sub_wrap unat_sub_nowrap unat_add_nowrap)
qed

lemma hue_inv_step: "hue_inv c \<Longrightarrow> hue_inv (rgb_apply_fade c s)"
proof (cases c)
  case (fields r g b)
  assume "hue_inv c"
  with fields show ?thesis
    using hue_inv_step_nz [of r g b s] hue_inv_step_nz [of r g b 1]
    by (cases "s = 0") (simp_all add: fade_zero_step)
qed

text \<open>
  C10. Every colour reached from (255,0,0) by calls of \<^verbatim>\<open>rgb_apply_fade\<close> with any
  step sizes has channels that add up to exactly 255 and at least one channel equal to 0.
  The list \<open>steps\<close> holds the step size of each call; since it is arbitrary, the
  statement covers the colour after every call of a run. A colour with a dark channel
  never takes the branch that resets a colour with three lit channels to red.
\<close>

theorem rgb_apply_fade_reachable_sum_255:
  "hue_inv (foldl rgb_apply_fade (255, 0, 0) steps)"
proof (induction steps rule: rev_induct)
  case Nil
  show ?case by (simp add: hue_inv_def)
next
  case (snoc s steps)
  then show ?case by (simp add: hue_inv_step)
qed

theorem rgb_apply_fade_reachable_sum_255_witness:
  "hue_inv (foldl rgb_apply_fade (255, 0, 0) [7, 0, 200, 255, 1])"
  by (rule rgb_apply_fade_reachable_sum_255)

section \<open>Hue rotation: one turn of the wheel\<close>

lemma fade_steps_Suc: "fade_steps (Suc n) c = rgb_apply_fade (fade_steps n c) 1"
  by (simp add: fade_steps_def)

lemma fade_steps_add: "fade_steps (m + n) c = fade_steps m (fade_steps n c)"
  by (simp add: fade_steps_def funpow_add)

lemma fade1_r2g: "r \<noteq> 0 \<Longrightarrow> g < 255 \<Longrightarrow> rgb_apply_fade (r, g, 0) 1 = (r - 1, g + 1, 0)"
  by (simp add: fade_r2g byte_zero_iff)

lemma fade1_g2b: "g \<noteq> 0 \<Longrightarrow> g = 255 \<or> b \<noteq> 0 \<Longrightarrow> rgb_apply_fade (0, g, b) 1 = (0, g - 1, b + 1)"
  by (simp add: fade_g2b byte_zero_iff)

lemma fade1_b2r: "b \<noteq> 0 \<Longrightarrow> rgb_apply_fade (r, 0, b) 1 = (r + 1, 0, b - 1)"
  by (simp add: fade_b2r byte_zero_iff)

lemma byte_pred: "k < 255 \<Longrightarrow> byte (255 - k) - 1 = byte (255 - Suc k)"
proof -
  assume "k < 255"
  then have d: "255 - k = Suc (255 - Suc k)" by simp
  show ?thesis by (subst d) (simp only: byte_Suc add_diff_cancel_right')
qed

lemma sector_r2g: "k \<le> 255 \<Longrightarrow> fade_steps k (255, 0, 0) = (byte (255 - k), byte k, 0)"
proof (induction k)
  case 0
  show ?case by (simp add: fade_steps_def byte_0 byte_255)
next
  case (Suc k)
  then have IH: "fade_steps k (255, 0, 0) = (byte (255 - k), byte k, 0)" by simp
  from Suc.prems have g: "byte k < 255"
    by (simp add: word_less_nat_alt unat_byte)
  from Suc.prems have r: "byte (255 - k) \<noteq> 0"
    by (simp add: byte_eq_0_iff)
  from Suc.prems have "byte (255 - k) - 1 = byte (255 - Suc k)"
    by (intro byte_pred) simp
  then show ?case
    unfolding fade_steps_Suc IH by (simp add: fade1_r2g [OF r g] byte_Suc)
qed

lemma sector_g2b: "k \<le> 255 \<Longrightarrow> fade_steps k (0, 255, 0) = (0, byte (255 - k), byte k)"
proof (induction k)
  case 0
  show ?case by (simp add: fade_steps_def byte_0 byte_255)
next
  case (Suc k)
  then have IH: "fade_steps k (0, 255, 0) = (0, byte (255 - k), byte k)" by simp
  from Suc.prems have g: "byte (255 - k) \<noteq> 0"
    by (simp add: byte_eq_0_iff)
  from Suc.prems have b: "byte (255 - k) = 255 \<or> byte k \<noteq> 0"
    by (cases "k = 0") (simp_all add: byte_eq_0_iff byte_255)
  from Suc.prems have "byte (255 - k) - 1 = byte (255 - Suc k)"
    by (intro byte_pred) simp
  then show ?case
    unfolding fade_steps_Suc IH by (simp add: fade1_g2b [OF g b] byte_Suc)
qed

lemma sector_b2r: "k \<le> 255 \<Longrightarrow> fade_steps k (0, 0, 255) = (byte k, 0, byte (255 - k))"
proof (induction k)
  case 0
  show ?case by (simp add: fade_steps_def byte_0 byte_255)
next
  case (Suc k)
  then have IH: "fade_steps k (0, 0, 255) = (byte k, 0, byte (255 - k))" by simp
  from Suc.prems have b: "byte (255 - k) \<noteq> 0"
    by (simp add: byte_eq_0_iff)
  from Suc.prems have "byte (255 - k) - 1 = byte (255 - Suc k)"
    by (intro byte_pred) simp
  then show ?case
    unfolding fade_steps_Suc IH by (simp add: fade1_b2r [OF b] byte_Suc)
qed

lemma fade_steps_wheel: "k \<le> 765 \<Longrightarrow> fade_steps k (255, 0, 0) = wheel k"
proof -
  assume k: "k \<le> 765"
  have s1: "fade_steps 255 (255, 0, 0) = (0, 255, 0)"
    using sector_r2g [of 255] by (simp add: byte_0 byte_255)
  have s2: "fade_steps 255 (0, 255, 0) = (0, 0, 255)"
    using sector_g2b [of 255] by (simp add: byte_0 byte_255)
  consider "k \<le> 255" | "255 < k" "k \<le> 510" | "510 < k" by linarith
  then show ?thesis
  proof cases
    case 1
    then show ?thesis by (simp add: sector_r2g wheel_def)
  next
    case 2
    then have "fade_steps k (255, 0, 0) = fade_steps (k - 255) (fade_steps 255 (255, 0, 0))"
      using fade_steps_add [of "k - 255" 255] by simp
    with 2 show ?thesis by (simp add: s1 sector_g2b wheel_def)
  next
    case 3
    then have "fade_steps k (255, 0, 0) =
        fade_steps (k - 510) (fade_steps 255 (fade_steps 255 (255, 0, 0)))"
      using fade_steps_add [of "k - 510" 510] fade_steps_add [of 255 255] by simp
    with 3 k show ?thesis by (simp add: s1 s2 sector_b2r wheel_def)
  qed
qed

lemma wheel_pos_wheel: "k < 765 \<Longrightarrow> wheel_pos (wheel k) = k"
  by (auto simp add: wheel_def wheel_pos_def unat_byte byte_eq_0_iff)

lemma wheel_inj: "inj_on wheel {0..<765}"
  by (rule inj_on_inverseI [where g = wheel_pos]) (simp add: wheel_pos_wheel)

lemma wheel_765: "wheel 765 = (255, 0, 0)"
  by (simp add: wheel_def byte_0 byte_255)

lemma wheel_scroll:
  assumes "k < 765"
  shows "strip_scroll_rgb_color (of_nat k) = wheel k"
proof -
  let ?v = "of_nat k :: 16 word"
  have u: "unat ?v = k" using assms by (simp add: unat_w16)
  have m: "?v mod 765 = ?v"
    using assms by (simp add: word_unat_eq_iff unat_mod_distrib u)
  consider "k \<le> 255" | "255 < k" "k \<le> 510" | "510 < k" by linarith
  then show ?thesis
  proof cases
    case 1
    then have c: "?v < 256" by (simp add: word_less_nat_alt u)
    have "unat (255 - ?v) = 255 - k" using 1 by (simp add: unat_sub16 u)
    then have "(ucast (255 - ?v) :: 8 word) = byte (255 - k)"
      by (rule ucast_byte) (use 1 in simp)
    moreover have "(ucast ?v :: 8 word) = byte k" using u 1 by (intro ucast_byte) simp_all
    ultimately show ?thesis using 1 c by (simp add: strip_scroll_rgb_color_def m wheel_def)
  next
    case 2
    then have c: "\<not> ?v < 256" "?v < 511" by (simp_all add: word_less_nat_alt u)
    define v where "v = ?v - 255"
    have v: "unat v = k - 255" using 2 by (simp add: v_def unat_sub16 u)
    then have "unat (255 - v) = 510 - k" using 2 by (simp add: unat_sub16)
    then have "(ucast (255 - v) :: 8 word) = byte (510 - k)"
      by (rule ucast_byte) (use 2 in simp)
    moreover have "(ucast v :: 8 word) = byte (k - 255)"
      using v 2 by (intro ucast_byte) simp_all
    ultimately show ?thesis using 2 c
      by (simp add: strip_scroll_rgb_color_def m wheel_def Let_def flip: v_def)
  next
    case 3
    then have c: "\<not> ?v < 256" "\<not> ?v < 511" by (simp_all add: word_less_nat_alt u)
    define v where "v = ?v - 510"
    have v: "unat v = k - 510" using 3 by (simp add: v_def unat_sub16 u)
    then have "unat (255 - v) = 765 - k" using 3 assms by (simp add: unat_sub16)
    then have "(ucast (255 - v) :: 8 word) = byte (765 - k)"
      by (rule ucast_byte) (use 3 in simp)
    moreover have "(ucast v :: 8 word) = byte (k - 510)"
      using v 3 assms by (intro ucast_byte) simp_all
    ultimately show ?thesis using 3 c
      by (simp add: strip_scroll_rgb_color_def m wheel_def Let_def flip: v_def)
  qed
qed

text \<open>
  C2. From (255,0,0), 765 calls of \<^verbatim>\<open>rgb_apply_fade\<close> with step size 1 give (255,0,0)
  again; the 765 colours on the way (after 0, 1, ..., 764 calls) are pairwise different;
  and the colour after \<open>k\<close> calls is the colour that \<^verbatim>\<open>strip_scroll_rgb\<close> puts at offset
  \<open>k\<close> of its 765-position wheel, so every position is visited, once and in order.
\<close>

theorem rgb_apply_fade_period_765:
  "fade_steps 765 (255, 0, 0) = (255, 0, 0) \<and>
   distinct (map (\<lambda>k. fade_steps k (255, 0, 0)) [0..<765]) \<and>
   (\<forall>k<765. fade_steps k (255, 0, 0) = strip_scroll_rgb_color (of_nat k))"
proof (intro conjI allI impI)
  show "fade_steps 765 (255, 0, 0) = (255, 0, 0)"
    by (simp add: fade_steps_wheel wheel_765)
  have eq: "map (\<lambda>k. fade_steps k (255, 0, 0)) [0..<765] = map wheel [0..<765]"
    by (rule map_cong) (simp_all add: fade_steps_wheel)
  show "distinct (map (\<lambda>k. fade_steps k (255, 0, 0)) [0..<765])"
    unfolding eq using wheel_inj by (simp add: distinct_map)
  fix k :: nat assume "k < 765"
  then show "fade_steps k (255, 0, 0) = strip_scroll_rgb_color (of_nat k)"
    by (simp add: fade_steps_wheel wheel_scroll)
qed

theorem rgb_apply_fade_period_765_witness:
  "fade_steps 300 (255, 0, 0) = strip_scroll_rgb_color 300 \<and>
   strip_scroll_rgb_color 300 = (0, 210, 45)"
  using rgb_apply_fade_period_765 by (simp add: strip_scroll_rgb_color_def)

section \<open>Distribution of colours over the strip\<close>

lemma distribute_loop_eq:
  "unat sz \<le> length rgb \<Longrightarrow>
   strip_distribute_rgb_loop L rgb sz i acc =
     Inr (acc @ map (distribute_seg L rgb sz) [unat i..<unat sz])"
proof (induction L rgb sz i acc rule: strip_distribute_rgb_loop.induct)
  case (1 L rgb sz i acc)
  show ?case
  proof (cases "i < sz")
    case True
    then have lt: "unat i < unat sz" by (simp add: word_less_nat_alt)
    with "1.prems" have inb: "unat i < length rgb" by simp
    have u: "unat (i + 1) = Suc (unat i)" using True by (rule w16_Suc)
    have "strip_distribute_rgb_loop L rgb sz i acc =
        strip_distribute_rgb_loop L rgb sz (i + 1) (acc @ [distribute_seg L rgb sz (unat i)])"
      using True inb by (subst strip_distribute_rgb_loop.simps) (simp add: Let_def distribute_seg_def)
    also have "\<dots> = Inr ((acc @ [distribute_seg L rgb sz (unat i)]) @
        map (distribute_seg L rgb sz) [unat (i + 1)..<unat sz])"
      using "1.IH" [OF True inb refl refl] "1.prems" by (simp add: distribute_seg_def)
    finally show ?thesis using lt by (simp add: u upt_conv_Cons)
  next
    case False
    then have "unat sz \<le> unat i" by (simp add: word_less_nat_alt)
    with False show ?thesis by (subst strip_distribute_rgb_loop.simps) simp
  qed
qed


lemma of_nat_eq_pred_iff:
  assumes "sz \<noteq> 0" "k < unat sz"
  shows "((of_nat k :: 16 word) = sz - 1) = (k = unat sz - 1)"
proof -
  have b: "unat sz < 65536" using unsigned_less [of sz, where 'a = nat] by simp
  with assms have k: "unat (of_nat k :: 16 word) = k" by (simp add: unat_of_nat)
  have "unat (sz - 1) = unat sz - 1" using assms(1) by (simp add: unat_minus_one)
  with k show ?thesis by (auto simp: word_unat_eq_iff)
qed

lemma unat_last_len:
  fixes L sz :: "16 word"
  assumes "sz \<noteq> 0"
  shows "unat (L div sz + L mod sz) = unat L div unat sz + unat L mod unat sz"
proof -
  define q where "q = unat L div unat sz"
  define r where "r = unat L mod unat sz"
  have n: "0 < unat sz" using assms by (simp add: unat_gt_0)
  have L: "unat L = unat sz * q + r" by (simp add: q_def r_def)
  have "q \<le> unat sz * q" using n by (cases "unat sz") simp_all
  with L have "q + r \<le> unat L" by linarith
  with unat_w16_lt [of L] have "q + r < 65536" by linarith
  then have "unat (L div sz) + unat (L mod sz) < 2 ^ LENGTH(16)"
    by (simp add: unat_div unat_mod q_def r_def)
  then show ?thesis by (simp add: unat_add_lem [THEN iffD1] unat_div unat_mod)
qed

lemma unat_seg_length:
  assumes "sz \<noteq> 0" "k < unat sz"
  shows "unat (substrp_length (distribute_seg L rgb sz k)) =
     (if k = unat sz - 1 then unat L div unat sz + unat L mod unat sz else unat L div unat sz)"
  using assms by (simp add: distribute_seg_def of_nat_eq_pred_iff unat_last_len unat_div)

lemma sum_seg_lengths:
  assumes "sz \<noteq> 0"
  shows "sum_list (map (\<lambda>k. unat (substrp_length (distribute_seg L rgb sz k))) [0..<unat sz]) = unat L"
proof -
  obtain n where n: "unat sz = Suc n" using assms by (cases "unat sz") (simp_all add: unat_0_iff)
  have eq: "map (\<lambda>k. unat (substrp_length (distribute_seg L rgb sz k))) [0..<n] =
        map (\<lambda>k. unat L div unat sz) [0..<n]"
    by (rule map_cong) (use assms n in \<open>simp_all add: unat_seg_length\<close>)
  have "sum_list (map (\<lambda>k. unat (substrp_length (distribute_seg L rgb sz k))) [0..<n]) =
        n * (unat L div unat sz)"
    unfolding eq by (simp add: sum_list_triv)
  moreover have "unat (substrp_length (distribute_seg L rgb sz n)) =
        unat L div unat sz + unat L mod unat sz"
    using assms n by (simp add: unat_seg_length)
  ultimately have "sum_list (map (\<lambda>k. unat (substrp_length (distribute_seg L rgb sz k))) [0..<unat sz]) =
        Suc n * (unat L div unat sz) + unat L mod unat sz"
    by (simp add: n)
  then show ?thesis by (simp flip: n)
qed

text \<open>
  C3. For a colour array of \<open>N \<ge> 1\<close> entries and a strip of length \<open>L\<close>,
  \<^verbatim>\<open>strip_distribute_rgb\<close> builds a buffer of \<open>N\<close> segments: segment \<open>i\<close> has the
  colour \<open>i\<close> of the array; the first \<open>N - 1\<close> segments have length \<open>L div N\<close> and the
  last has length \<open>L div N + L mod N\<close>; the lengths add up to exactly \<open>L\<close>. For
  \<open>L = 10\<close> and the colours red, green, blue the segments are 3 of red, 3 of green and
  4 of blue.
\<close>

theorem strip_distribute_rgb_segments:
  assumes "sz \<noteq> 0" "length rgb = unat sz"
  shows "(\<exists>segs. strip_distribute_rgb_buf L rgb sz = Inr \<lparr>n_substrps = sz, substrps = segs\<rparr> \<and>
           length segs = unat sz \<and>
           (\<forall>i < unat sz.
              unat (substrp_length (segs ! i)) =
                (if i = unat sz - 1 then unat L div unat sz + unat L mod unat sz
                 else unat L div unat sz) \<and>
              substrp_rgb (segs ! i) = rgb ! i) \<and>
           sum_list (map (\<lambda>s. unat (substrp_length s)) segs) = unat L) \<and>
         strip_distribute_rgb_buf 10 [(255, 0, 0), (0, 255, 0), (0, 0, 255)] 3 =
           Inr \<lparr>n_substrps = 3,
                substrps = [\<lparr>substrp_length = 3, substrp_rgb = (255, 0, 0)\<rparr>,
                            \<lparr>substrp_length = 3, substrp_rgb = (0, 255, 0)\<rparr>,
                            \<lparr>substrp_length = 4, substrp_rgb = (0, 0, 255)\<rparr>]\<rparr>"
proof (rule conjI)
  let ?segs = "map (distribute_seg L rgb sz) [0..<unat sz]"
  have "strip_distribute_rgb_buf L rgb sz = Inr \<lparr>n_substrps = sz, substrps = ?segs\<rparr>"
    using assms(2) by (simp add: strip_distribute_rgb_buf_def distribute_loop_eq)
  moreover have "length ?segs = unat sz" by simp
  moreover have "\<forall>i < unat sz.
      unat (substrp_length (?segs ! i)) =
        (if i = unat sz - 1 then unat L div unat sz + unat L mod unat sz else unat L div unat sz) \<and>
      substrp_rgb (?segs ! i) = rgb ! i"
    using assms(1) by (simp add: unat_seg_length) (simp add: distribute_seg_def)
  moreover have "sum_list (map (\<lambda>s. unat (substrp_length s)) ?segs) = unat L"
    using sum_seg_lengths [OF assms(1), of L rgb] by (simp add: comp_def)
  ultimately show "\<exists>segs. strip_distribute_rgb_buf L rgb sz = Inr \<lparr>n_substrps = sz, substrps = segs\<rparr> \<and>
           length segs = unat sz \<and>
           (\<forall>i < unat sz.
              unat (substrp_length (segs ! i)) =
                (if i = unat sz - 1 then unat L div unat sz + unat L mod unat sz
                 else unat L div unat sz) \<and>
              substrp_rgb (segs ! i) = rgb ! i) \<and>
           sum_list (map (\<lambda>s. unat (substrp_length s)) segs) = unat L"
    by blast
next
  show "strip_distribute_rgb_buf 10 [(255, 0, 0), (0, 255, 0), (0, 0, 255)] 3 =
     Inr \<lparr>n_substrps = 3,
          substrps = [\<lparr>substrp_length = 3, substrp_rgb = (255, 0, 0)\<rparr>,
                      \<lparr>substrp_length = 3, substrp_rgb = (0, 255, 0)\<rparr>,
                      \<lparr>substrp_length = 4, substrp_rgb = (0, 0, 255)\<rparr>]\<rparr>"
    by (simp add: strip_distribute_rgb_buf_def distribute_loop_eq distribute_seg_def upt_conv_Cons)
qed

theorem strip_distribute_rgb_segments_witness:
  "(7 :: 16 word) \<noteq> 0 \<and> length (replicate 7 (1, 2, 3) :: RGB_t list) = unat (7 :: 16 word) \<and>
   (\<exists>segs. strip_distribute_rgb_buf 100 (replicate 7 (1, 2, 3)) 7 = Inr \<lparr>n_substrps = 7, substrps = segs\<rparr> \<and>
      length segs = 7 \<and>
      unat (substrp_length (segs ! 0)) = 14 \<and>
      unat (substrp_length (segs ! 6)) = 16 \<and>
      sum_list (map (\<lambda>s. unat (substrp_length s)) segs) = 100)"
proof -
  have h: "(7 :: 16 word) \<noteq> 0" "length (replicate 7 (1, 2, 3) :: RGB_t list) = unat (7 :: 16 word)"
    by simp_all
  from strip_distribute_rgb_segments [OF h, of 100] obtain segs where
    s: "strip_distribute_rgb_buf 100 (replicate 7 (1, 2, 3)) 7 = Inr \<lparr>n_substrps = 7, substrps = segs\<rparr>"
      "length segs = unat (7 :: 16 word)"
      "\<forall>i < unat (7 :: 16 word).
         unat (substrp_length (segs ! i)) =
           (if i = unat (7 :: 16 word) - 1
            then unat (100 :: 16 word) div unat (7 :: 16 word) + unat (100 :: 16 word) mod unat (7 :: 16 word)
            else unat (100 :: 16 word) div unat (7 :: 16 word)) \<and>
         substrp_rgb (segs ! i) = replicate 7 (1, 2, 3) ! i"
      "sum_list (map (\<lambda>s. unat (substrp_length s)) segs) = unat (100 :: 16 word)"
    by blast
  from s(3) have "unat (substrp_length (segs ! 0)) = 14" "unat (substrp_length (segs ! 6)) = 16"
    by simp_all
  with s(1,2,4) h show ?thesis by simp
qed

section \<open>Projection of a dense array\<close>

lemma ucast_byte_less: "256 \<le> ss \<Longrightarrow> ucast i < ss" for i :: "8 word" and ss :: "16 word"
proof -
  assume "256 \<le> ss"
  moreover have "(ucast i :: 16 word) < 256"
    using unat_byte_lt [of i] by (simp add: word_less_nat_alt unsigned_ucast_eq take_bit_eq_mod)
  ultimately show ?thesis by (meson less_le_trans)
qed

lemma strip_apply_RGBbuf_loop_never_returns:
  assumes "strip_apply_RGBbuf_loop w ss buf i tr = Some y"
  shows "\<not> (256 \<le> ss \<and> 256 \<le> length buf)"
proof (rule strip_apply_RGBbuf_loop.raw_induct
    [where P = "\<lambda>w ss buf i tr y. \<not> (256 \<le> ss \<and> 256 \<le> length buf)"])
  show "strip_apply_RGBbuf_loop w ss buf i tr = Some y" by fact
next
  fix loop :: "color_order \<Rightarrow> 16 word \<Rightarrow> RGB_t list \<Rightarrow> 8 word \<Rightarrow> hw list \<Rightarrow> (error + hw list) option"
    and w ss buf i tr y
  assume IH: "\<And>w ss buf i tr y. loop w ss buf i tr = Some y \<Longrightarrow> \<not> (256 \<le> ss \<and> 256 \<le> length buf)"
  assume eq: "(if ucast i < ss
      then if unat i < length buf
           then loop w ss buf (i + 1) (tr @ tx_rgb w (buf ! unat i))
           else Some (Inl OutOfBounds)
      else Some (Inr tr)) = Some y"
  show "\<not> (256 \<le> ss \<and> 256 \<le> length buf)"
  proof
    assume a: "256 \<le> ss \<and> 256 \<le> length buf"
    then have "unat i < length buf" using unat_byte_lt [of i] by simp
    with eq a have "loop w ss buf (i + 1) (tr @ tx_rgb w (buf ! unat i)) = Some y"
      by (simp add: ucast_byte_less)
    from IH [OF this] a show False by simp
  qed
qed

lemma strip_apply_RGBbuf_diverges: "256 \<le> ss \<Longrightarrow> 256 \<le> length buf \<Longrightarrow> strip_apply_RGBbuf w ss buf = None"
proof -
  assume a: "256 \<le> ss" "256 \<le> length buf"
  have "strip_apply_RGBbuf_loop w ss buf 0 [Prep_tx] = None"
  proof (cases "strip_apply_RGBbuf_loop w ss buf 0 [Prep_tx]")
    case None then show ?thesis .
  next
    case (Some y)
    from strip_apply_RGBbuf_loop_never_returns [OF this] a show ?thesis by simp
  qed
  then show ?thesis by (simp add: strip_apply_RGBbuf_def)
qed

lemma strip_apply_RGBbuf_loop_small:
  assumes "unat ss \<le> 255" "unat ss \<le> length buf" "unat i \<le> unat ss"
  shows "strip_apply_RGBbuf_loop w ss buf i tr =
     Some (Inr (tr @ concat (map (tx_rgb w) (take (unat ss - unat i) (drop (unat i) buf)))))"
  using assms
proof (induction "unat ss - unat i" arbitrary: i tr)
  case 0
  then have "unat i = unat ss" by simp
  then have "\<not> ucast i < ss"
    using unat_byte_lt [of i] by (simp add: word_less_nat_alt unsigned_ucast_eq take_bit_eq_mod)
  with 0 show ?case by (subst strip_apply_RGBbuf_loop.simps) simp
next
  case (Suc n)
  then have lt: "unat i < unat ss" by simp
  then have c: "ucast i < ss"
    using unat_byte_lt [of i] by (simp add: word_less_nat_alt unsigned_ucast_eq take_bit_eq_mod)
  have inb: "unat i < length buf" using lt Suc.prems by simp
  have u: "unat (i + 1) = Suc (unat i)" using lt Suc.prems(1) by (simp add: unat_plus_if')
  have n: "n = unat ss - unat (i + 1)" using Suc(2) u by simp
  have "strip_apply_RGBbuf_loop w ss buf i tr =
      strip_apply_RGBbuf_loop w ss buf (i + 1) (tr @ tx_rgb w (buf ! unat i))"
    using c inb by (subst strip_apply_RGBbuf_loop.simps) simp
  also have "\<dots> = Some (Inr ((tr @ tx_rgb w (buf ! unat i)) @
      concat (map (tx_rgb w) (take (unat ss - unat (i + 1)) (drop (unat (i + 1)) buf)))))"
    using Suc.prems lt u by (intro Suc(1) [OF n]) simp_all
  finally have e: "strip_apply_RGBbuf_loop w ss buf i tr = Some (Inr ((tr @ tx_rgb w (buf ! unat i)) @
      concat (map (tx_rgb w) (take (unat ss - unat (i + 1)) (drop (unat (i + 1)) buf)))))" .
  have "unat ss - unat i = Suc (unat ss - unat (i + 1))" using lt u by simp
  then have "take (unat ss - unat i) (drop (unat i) buf) =
      buf ! unat i # take (unat ss - unat (i + 1)) (drop (unat (i + 1)) buf)"
    using inb u by (simp add: Cons_nth_drop_Suc [symmetric])
  with e show ?case by simp
qed


lemma strip_apply_RGBbuf_small:
  assumes "unat strip_size \<le> 255" "length RGBbuf = unat strip_size"
  shows "strip_apply_RGBbuf w strip_size RGBbuf =
     Some (Inr ([Prep_tx] @ concat (map (tx_rgb w) RGBbuf) @ [End_tx]))"
  using assms strip_apply_RGBbuf_loop_small [of strip_size RGBbuf 0 w "[Prep_tx]"]
  by (simp add: strip_apply_RGBbuf_def)

text \<open>
  C4. The claim is that \<^verbatim>\<open>strip_apply_RGBbuf\<close> returns for every \<^verbatim>\<open>strip_size\<close>. It does
  for a strip of at most 255 pixels (\<open>strip_apply_RGBbuf_small\<close>: one begin, the pixels of
  the array in order, one end). For a strip of 256 pixels and a dense array of 256
  colours the call never returns: the 8-bit counter wraps from 255 to 0 and stays below
  \<^verbatim>\<open>strip_size\<close>.
\<close>

theorem strip_apply_RGBbuf_256_never_returns:
  "strip_apply_RGBbuf RGB 256 (replicate 256 (0, 0, 0)) = None"
  by (rule strip_apply_RGBbuf_diverges) simp_all

section \<open>Sparse pixel buffer: what the loops compute on a well-formed buffer\<close>

lemma rd_Some: "i < length xs \<Longrightarrow> rd (map Some xs) i = Inr (xs ! i)"
  by (simp add: rd_def)

lemma wr_Some: "i < length xs \<Longrightarrow> wr (map Some xs) i v = Inr (map Some (xs[i := v]))"
  by (simp add: wr_def map_update)

lemma unat_of_nat16: "n < 65536 \<Longrightarrow> unat (of_nat n :: 16 word) = n"
  by (simp add: unat_of_nat)

lemma pxbuf_of_size: "length ps < 65536 \<Longrightarrow> unat (pxbuf_size (pxbuf_of ps)) = length ps"
  by (simp add: pxbuf_of_def unat_of_nat16)

lemma pxbuf_of_buf: "pxbuf_buf (pxbuf_of ps) = map Some ps"
  by (simp add: pxbuf_of_def)

lemma pxbuf_exists_scan_eq:
  assumes "length ps < 65536" "unat i \<le> length ps"
  shows "pxbuf_exists_scan (pxbuf_of ps) p i = Inr (pxl_exists p (drop (unat i) ps))"
  using assms(2)
proof (induction "length ps - unat i" arbitrary: i)
  case 0
  then have "\<not> i < pxbuf_size (pxbuf_of ps)"
    using assms(1) by (simp add: word_less_nat_alt pxbuf_of_size)
  with 0 show ?case by (subst pxbuf_exists_scan.simps) simp
next
  case (Suc n)
  then have lt: "unat i < length ps" by simp
  then have c: "i < pxbuf_size (pxbuf_of ps)"
    using assms(1) by (simp add: word_less_nat_alt pxbuf_of_size)
  have u: "unat (i + 1) = Suc (unat i)" using c by (rule w16_Suc)
  have d: "drop (unat i) ps = ps ! unat i # drop (Suc (unat i)) ps"
    using lt by (simp add: Cons_nth_drop_Suc)
  have IH: "pxbuf_exists_scan (pxbuf_of ps) p (i + 1) = Inr (pxl_exists p (drop (unat (i + 1)) ps))"
    using Suc(2) lt u by (intro Suc(1)) simp_all
  show ?case
    using c lt by (subst pxbuf_exists_scan.simps) (simp add: pxbuf_of_buf rd_Some d IH u)
qed

lemma pxbuf_exists_eq:
  "length ps < 65536 \<Longrightarrow> pxbuf_exists (pxbuf_of ps) p = Inr (pxl_exists p ps)"
  using pxbuf_exists_scan_eq [of ps 0 p] by (simp add: pxbuf_exists_def)


lemma w16_pred: "j \<noteq> 0 \<Longrightarrow> unat (j - 1) = unat j - 1" for j :: "16 word"
  by (simp add: unat_minus_one)

lemma pxbuf_insert_shift_eq:
  assumes "unat i \<le> unat j" "unat j \<le> length ps"
  shows "\<exists>y. pxbuf_insert_shift (map Some (take (unat j) ps) @ [x] @ map Some (drop (unat j) ps)) j i =
     Inr (map Some (take (unat i) ps) @ [y] @ map Some (drop (unat i) ps))"
  using assms
proof (induction "unat j - unat i" arbitrary: j x)
  case 0
  then have e: "unat j = unat i" by simp
  then have "\<not> i < j" by (simp add: word_less_nat_alt)
  then show ?case by (subst pxbuf_insert_shift.simps) (simp add: e)
next
  case (Suc n)
  then have lt: "unat i < unat j" by simp
  then have c: "i < j" by (simp add: word_less_nat_alt)
  then have j0: "j \<noteq> 0" by auto
  have u: "unat (j - 1) = unat j - 1" using j0 by (rule w16_pred)
  define k where "k = unat j - 1"
  have k: "unat j = Suc k" using lt by (simp add: k_def)
  have kl: "k < length ps" using Suc.prems(2) k by simp
  let ?m = "map Some (take (unat j) ps) @ [x] @ map Some (drop (unat j) ps)"
  have r: "rd ?m (unat (j - 1)) = Inr (ps ! k)"
    using kl by (simp add: rd_def u k nth_append)
  have w: "wr ?m (unat j) (ps ! k) =
      Inr (map Some (take k ps) @ [Some (ps ! k)] @ map Some (drop k ps))"
  proof -
    have l: "length (map Some (take (unat j) ps)) = unat j" using Suc.prems(2) by simp
    have 1: "?m[unat j := Some (ps ! k)] =
        map Some (take (unat j) ps) @ [Some (ps ! k)] @ map Some (drop (unat j) ps)"
      using l by (simp add: list_update_append)
    have 2: "map Some (take (unat j) ps) = map Some (take k ps) @ [Some (ps ! k)]"
      using kl by (simp add: k take_Suc_conv_app_nth)
    have 3: "map Some (drop k ps) = Some (ps ! k) # map Some (drop (unat j) ps)"
      using kl by (simp add: k Cons_nth_drop_Suc [symmetric])
    have "?m[unat j := Some (ps ! k)] =
        map Some (take k ps) @ [Some (ps ! k)] @ map Some (drop k ps)"
      by (simp only: 1) (simp only: 2 3 append.simps append_assoc)
    moreover have "unat j < length ?m" using Suc.prems(2) by simp
    ultimately show ?thesis by (simp only: wr_def if_True)
  qed
  have step: "pxbuf_insert_shift ?m j i =
      pxbuf_insert_shift (map Some (take k ps) @ [Some (ps ! k)] @ map Some (drop k ps)) (j - 1) i"
    by (subst pxbuf_insert_shift.simps) (simp only: c if_True r w sum.case)
  have uk: "unat (j - 1) = k" using u k by simp
  have "\<exists>y. pxbuf_insert_shift
      (map Some (take (unat (j - 1)) ps) @ [Some (ps ! k)] @ map Some (drop (unat (j - 1)) ps)) (j - 1) i =
     Inr (map Some (take (unat i) ps) @ [y] @ map Some (drop (unat i) ps))"
    using Suc(2) lt u Suc.prems(2) by (intro Suc(1)) simp_all
  then show ?case unfolding step uk .
qed


lemma realloc_grow: "realloc (map Some ps) (Suc (length ps)) = map Some ps @ [None]"
  by (simp add: realloc_def)

lemma pxbuf_of_snoc:
  "\<lparr>pxbuf_size = pxbuf_size (pxbuf_of ps) + 1, pxbuf_buf = map Some (ps @ [x])\<rparr> = pxbuf_of (ps @ [x])"
  by (simp add: pxbuf_of_def)

lemma pxbuf_of_same:
  "length qs = length ps \<Longrightarrow> (pxbuf_of ps)\<lparr>pxbuf_buf := map Some qs\<rparr> = pxbuf_of qs"
  by (simp add: pxbuf_of_def)

lemma unat_size_Suc:
  assumes "Suc (length ps) < 65536"
  shows "unat (pxbuf_size (pxbuf_of ps) + 1) = Suc (length ps)"
proof -
  have "pxbuf_size (pxbuf_of ps) + 1 = of_nat (Suc (length ps))"
    by (simp add: pxbuf_of_def)
  then show ?thesis using assms by (simp only: unat_of_nat16)
qed

lemma pxbuf_insert_scan_eq:
  assumes "length ps < 65536" "unat i \<le> length ps"
    "unat i + length (pxl_insert p c (drop (unat i) ps)) < 65536"
  shows "pxbuf_insert_scan (pxbuf_of ps) p c i =
     Inr (pxbuf_of (take (unat i) ps @ pxl_insert p c (drop (unat i) ps)))"
  using assms(2,3)
proof (induction "length ps - unat i" arbitrary: i)
  case 0
  then have e: "unat i = length ps" by simp
  then have c: "\<not> i < pxbuf_size (pxbuf_of ps)"
    using assms(1) by (simp add: word_less_nat_alt pxbuf_of_size)
  from 0(3) e have room: "Suc (length ps) < 65536" by simp
  have w: "wr (map Some ps @ [None]) (length ps) \<lparr>pxl_pos = p, pxl_rgb = c\<rparr> =
      Inr (map Some (ps @ [\<lparr>pxl_pos = p, pxl_rgb = c\<rparr>]))"
    using list_update_length [of "map Some ps" None "[]"] by (simp add: wr_def)
  show ?case
    using c
    by (subst pxbuf_insert_scan.simps)
       (simp add: Let_def unat_size_Suc [OF room] realloc_grow pxbuf_of_buf
          pxbuf_of_size [OF assms(1)] w pxbuf_of_snoc e del: map_append list.map)
next
  case (Suc n)
  then have lt: "unat i < length ps" by simp
  then have c: "i < pxbuf_size (pxbuf_of ps)"
    using assms(1) by (simp add: word_less_nat_alt pxbuf_of_size)
  have u: "unat (i + 1) = Suc (unat i)" using c by (rule w16_Suc)
  define x where "x = ps ! unat i"
  have d: "drop (unat i) ps = x # drop (Suc (unat i)) ps"
    using lt by (simp add: x_def Cons_nth_drop_Suc)
  have r: "rd (pxbuf_buf (pxbuf_of ps)) (unat i) = Inr x"
    using lt by (simp add: pxbuf_of_buf rd_Some x_def)
  consider (eq) "pxl_pos x = p" | (gt) "pxl_pos x \<noteq> p" "p < pxl_pos x"
    | (lt) "pxl_pos x \<noteq> p" "\<not> p < pxl_pos x" by blast
  then show ?case
  proof cases
    case eq
    have w: "wr (pxbuf_buf (pxbuf_of ps)) (unat i) (x\<lparr>pxl_rgb := c\<rparr>) =
        Inr (map Some (ps[unat i := x\<lparr>pxl_rgb := c\<rparr>]))"
      using lt by (simp add: pxbuf_of_buf wr_Some)
    have l: "ps[unat i := x\<lparr>pxl_rgb := c\<rparr>] =
        take (unat i) ps @ pxl_insert p c (drop (unat i) ps)"
      using lt eq by (simp add: d upd_conv_take_nth_drop)
    show ?thesis
      using c eq
      by (subst pxbuf_insert_scan.simps) (simp add: r w pxbuf_of_same del: map_append list.map flip: l)
  next
    case gt
    from Suc(4) gt have room: "Suc (length ps) < 65536"
      using lt by (simp add: d)
    let ?size' = "pxbuf_size (pxbuf_of ps) + 1"
    let ?new = "\<lparr>pxl_pos = p, pxl_rgb = c\<rparr>"
    let ?size = "pxbuf_size (pxbuf_of ps)"
    have us: "unat ?size = length ps"
      using assms(1) by (simp add: pxbuf_of_size)
    have m: "realloc (pxbuf_buf (pxbuf_of ps)) (unat ?size') =
        map Some (take (unat ?size) ps) @ [None] @ map Some (drop (unat ?size) ps)"
      by (simp add: unat_size_Suc [OF room] pxbuf_of_buf realloc_grow us)
    obtain y where sh: "pxbuf_insert_shift (realloc (pxbuf_buf (pxbuf_of ps)) (unat ?size')) ?size i =
        Inr (map Some (take (unat i) ps) @ [y] @ map Some (drop (unat i) ps))"
      unfolding m using pxbuf_insert_shift_eq [of i ?size ps None] lt us by auto
    have w: "wr (map Some (take (unat i) ps) @ y # map Some (drop (unat i) ps)) (unat i) ?new =
        Inr (map Some (take (unat i) ps) @ Some ?new # map Some (drop (unat i) ps))"
      using lt by (simp add: wr_def list_update_append)
    have fin: "\<lparr>pxbuf_size = ?size', pxbuf_buf = map Some (take (unat i) ps) @ Some ?new # map Some (drop (unat i) ps)\<rparr> =
        pxbuf_of (take (unat i) ps @ ?new # drop (unat i) ps)"
      using lt by (simp add: pxbuf_of_def)
    have ins: "pxl_insert p c (drop (unat i) ps) = ?new # drop (unat i) ps"
      using gt by (simp add: d)
    show ?thesis
      using c gt sh
      by (subst pxbuf_insert_scan.simps) (simp add: r Let_def w fin ins)
  next
    case lt
    have IH: "pxbuf_insert_scan (pxbuf_of ps) p c (i + 1) =
        Inr (pxbuf_of (take (unat (i + 1)) ps @ pxl_insert p c (drop (unat (i + 1)) ps)))"
      using Suc(2,4) \<open>unat i < length ps\<close> u lt by (intro Suc(1)) (simp_all add: d)
    have l: "take (unat (i + 1)) ps @ pxl_insert p c (drop (unat (i + 1)) ps) =
        take (unat i) ps @ pxl_insert p c (drop (unat i) ps)"
      using lt \<open>unat i < length ps\<close> by (simp add: u d take_Suc_conv_app_nth x_def)
    show ?thesis
      using c lt
      by (subst pxbuf_insert_scan.simps) (simp add: r IH l)
  qed
qed


lemma pxbuf_of_size_0_iff: "length ps < 65536 \<Longrightarrow> (pxbuf_size (pxbuf_of ps) = 0) = (ps = [])"
  using pxbuf_of_size [of ps] by (auto simp flip: unat_0_iff)

lemma pxbuf_insert_eq:
  assumes "length ps < 65536" "length (pxl_insert p c ps) < 65536"
  shows "pxbuf_insert (pxbuf_of ps) p c = Inr (pxbuf_of (pxl_insert p c ps))"
proof (cases "ps = []")
  case True
  then show ?thesis by (simp add: pxbuf_insert_def pxbuf_of_def wr_def)
next
  case False
  then have "pxbuf_size (pxbuf_of ps) \<noteq> 0" using assms(1) by (simp add: pxbuf_of_size_0_iff)
  then show ?thesis
    using pxbuf_insert_scan_eq [of ps 0 p c] assms by (simp add: pxbuf_insert_def)
qed

lemma pxbuf_remove_shift_eq:
  assumes "unat i \<le> unat n" "unat n < length xs"
  shows "pxbuf_remove_shift (map Some xs) n i =
     Inr (map Some (take (unat i) xs @ drop (Suc (unat i)) (take (Suc (unat n)) xs) @ drop (unat n) xs))"
  using assms
proof (induction "unat n - unat i" arbitrary: i xs)
  case 0
  then have e: "unat i = unat n" by simp
  then have c: "\<not> i < n" by (simp add: word_less_nat_alt)
  have "take (unat n) xs @ drop (unat n) xs = xs" by simp
  with c show ?case by (subst pxbuf_remove_shift.simps) (simp add: e)
next
  case (Suc k)
  then have lt: "unat i < unat n" by simp
  then have c: "i < n" by (simp add: word_less_nat_alt)
  have u: "unat (i + 1) = Suc (unat i)" using c by (rule w16_Suc)
  define j where "j = unat i"
  have jn: "j < unat n" "Suc j < length xs" "j < length xs" using lt Suc.prems by (simp_all add: j_def)
  have r: "rd (map Some xs) (unat (i + 1)) = Inr (xs ! Suc j)"
    using jn by (simp add: u rd_Some j_def)
  have w: "wr (map Some xs) (unat i) (xs ! Suc j) = Inr (map Some (xs[j := xs ! Suc j]))"
    using jn by (simp add: wr_Some j_def)
  let ?xs' = "xs[j := xs ! Suc j]"
  have IH: "pxbuf_remove_shift (map Some ?xs') n (i + 1) =
      Inr (map Some (take (unat (i + 1)) ?xs' @ drop (Suc (unat (i + 1))) (take (Suc (unat n)) ?xs') @
        drop (unat n) ?xs'))"
    using Suc(2) lt u Suc.prems by (intro Suc(1)) simp_all
  have 1: "take (Suc j) ?xs' = take j xs @ [xs ! Suc j]"
    using jn by (simp add: take_Suc_conv_app_nth)
  have 2: "drop (Suc (Suc j)) (take (Suc (unat n)) ?xs') = drop (Suc (Suc j)) (take (Suc (unat n)) xs)"
    by (simp add: take_update_swap drop_take)
  have 3: "drop (unat n) ?xs' = drop (unat n) xs" using jn by simp
  have 4: "drop (Suc j) (take (Suc (unat n)) xs) = xs ! Suc j # drop (Suc (Suc j)) (take (Suc (unat n)) xs)"
    using jn by (simp add: Cons_nth_drop_Suc [symmetric])
  have "pxbuf_remove_shift (map Some xs) n i = pxbuf_remove_shift (map Some ?xs') n (i + 1)"
    using c by (subst pxbuf_remove_shift.simps) (simp add: r w)
  also note IH
  finally show ?case by (simp add: u 1 2 3 4 flip: j_def)
qed


lemma realloc_shrink: "n \<le> length xs \<Longrightarrow> realloc (map Some xs) n = map Some (take n xs)"
  by (simp add: realloc_def take_map)

lemma realloc_prefix: "length xs = n \<Longrightarrow> realloc (map Some (xs @ ys)) n = map Some xs"
  by (simp add: realloc_def)

lemma pxbuf_remove_eq:
  assumes "length ps < 65536" "ps \<noteq> []"
  shows "pxbuf_remove (pxbuf_of ps) idx = Inr (pxbuf_of (pxl_remove (unat idx) ps))"
proof -
  define n where "n = length ps - 1"
  have len: "length ps = Suc n" using assms(2) by (cases ps) (simp_all add: n_def)
  let ?size' = "pxbuf_size (pxbuf_of ps) - 1"
  have s': "?size' = of_nat n" by (simp add: pxbuf_of_def len)
  have un: "unat ?size' = n" using assms(1) len by (simp add: s' unat_of_nat16)
  have plen: "length (pxl_remove (unat idx) ps) = n"
    using len by (auto simp: pxl_remove_def)
  have fin: "\<lparr>pxbuf_size = ?size', pxbuf_buf = map Some qs\<rparr> = pxbuf_of qs" if "length qs = n" for qs
    unfolding s' by (simp add: pxbuf_of_def that)
  show ?thesis
  proof (cases "n = 0")
    case True
    then have "pxl_remove (unat idx) ps = []" using plen by simp
    with True len show ?thesis by (simp add: pxbuf_remove_def pxbuf_of_def)
  next
    case False
    then have nz: "?size' \<noteq> 0" using un by auto
    show ?thesis
    proof (cases "unat idx < length ps")
      case True
      then have le: "unat idx \<le> unat ?size'" using un len by simp
      have sh: "pxbuf_remove_shift (map Some ps) ?size' idx =
          Inr (map Some (take (unat idx) ps @ drop (Suc (unat idx)) (take (Suc (unat ?size')) ps) @
            drop (unat ?size') ps))"
        using le un len by (intro pxbuf_remove_shift_eq) simp_all
      have t: "take (Suc n) ps = ps" using len by simp
      have l: "length (take (unat idx) ps @ drop (Suc (unat idx)) ps) = n"
        using True len by simp
      have re: "realloc (map Some (take (unat idx) ps @ drop (Suc (unat idx)) ps @ drop n ps)) n =
          map Some (take (unat idx) ps @ drop (Suc (unat idx)) ps)"
        using realloc_prefix [OF l, of "drop n ps"] by simp
      have "pxbuf_remove (pxbuf_of ps) idx =
          Inr \<lparr>pxbuf_size = ?size', pxbuf_buf = map Some (take (unat idx) ps @ drop (Suc (unat idx)) ps)\<rparr>"
        using nz by (simp only: pxbuf_remove_def Let_def if_False pxbuf_of_buf sh sum.case un t re)
      also have "\<dots> = Inr (pxbuf_of (pxl_remove (unat idx) ps))"
        using True fin [OF l] by (simp only: pxl_remove_def if_True)
      finally show ?thesis .
    next
      case F: False
      then have "\<not> idx < ?size'" using un len by (simp add: word_less_nat_alt)
      then have sh: "pxbuf_remove_shift (map Some ps) ?size' idx = Inr (map Some ps)"
        by (subst pxbuf_remove_shift.simps) simp
      have re: "realloc (map Some ps) n = map Some (butlast ps)"
        using len by (simp add: realloc_shrink butlast_conv_take)
      have "pxbuf_remove (pxbuf_of ps) idx = Inr \<lparr>pxbuf_size = ?size', pxbuf_buf = map Some (butlast ps)\<rparr>"
        using nz by (simp only: pxbuf_remove_def Let_def if_False pxbuf_of_buf sh sum.case un re)
      also have "\<dots> = Inr (pxbuf_of (pxl_remove (unat idx) ps))"
        using F fin [of "butlast ps"] len by (simp only: pxl_remove_def if_False) simp
      finally show ?thesis .
    qed
  qed
qed

lemma pxbuf_remove_empty_oob: "pxbuf_remove pxbuf_init 0 = Inl OutOfBounds"
  by (simp add: pxbuf_remove_def pxbuf_init_def Let_def pxbuf_remove_shift.simps [of _ _ 0] rd_def
      word_greater_zero_iff)


section \<open>Upsert and removal on lists of pixels\<close>

lemma length_pxl_insert: "length (pxl_insert p c ps) \<le> Suc (length ps)"
  by (induction ps) auto

lemma pxl_exists_insert: "pxl_exists p (pxl_insert p c ps)"
  by (induction ps) auto

lemma pxl_insert_overwrite:
  "\<exists>k < length (pxl_insert p c ps).
     pxl_insert p c ps ! k = \<lparr>pxl_pos = p, pxl_rgb = c\<rparr> \<and>
     (\<forall>c2. pxl_insert p c2 (pxl_insert p c ps) = (pxl_insert p c ps)[k := \<lparr>pxl_pos = p, pxl_rgb = c2\<rparr>])"
proof (induction ps)
  case Nil
  show ?case by (rule exI [of _ 0]) simp
next
  case (Cons x xs)
  consider (eq) "pxl_pos x = p" | (gt) "pxl_pos x \<noteq> p" "p < pxl_pos x"
    | (lt) "pxl_pos x \<noteq> p" "\<not> p < pxl_pos x" by blast
  then show ?case
  proof cases
    case eq
    then show ?thesis by (intro exI [of _ 0]) simp
  next
    case gt
    then show ?thesis by (intro exI [of _ 0]) simp
  next
    case lt
    from Cons.IH obtain k where k: "k < length (pxl_insert p c xs)"
      "pxl_insert p c xs ! k = \<lparr>pxl_pos = p, pxl_rgb = c\<rparr>"
      "\<forall>c2. pxl_insert p c2 (pxl_insert p c xs) = (pxl_insert p c xs)[k := \<lparr>pxl_pos = p, pxl_rgb = c2\<rparr>]"
      by blast
    with lt show ?thesis by (intro exI [of _ "Suc k"]) simp
  qed
qed

lemma set_pos_insert: "pxl_pos ` set (pxl_insert p c ps) = insert p (pxl_pos ` set ps)"
  by (induction ps) auto

lemma sorted_pxl_insert:
  "sorted_wrt (<) (map pxl_pos ps) \<Longrightarrow> sorted_wrt (<) (map pxl_pos (pxl_insert p c ps))"
proof (induction ps)
  case Nil
  show ?case by simp
next
  case (Cons x xs)
  then have xs: "sorted_wrt (<) (map pxl_pos xs)" and x: "\<forall>y \<in> set xs. pxl_pos x < pxl_pos y"
    by simp_all
  consider (eq) "pxl_pos x = p" | (gt) "pxl_pos x \<noteq> p" "p < pxl_pos x"
    | (lt) "pxl_pos x \<noteq> p" "\<not> p < pxl_pos x" by blast
  then show ?case
  proof cases
    case eq
    with xs x show ?thesis by simp
  next
    case gt
    with xs x show ?thesis by auto
  next
    case lt
    then have "pxl_pos x < p" by simp
    moreover have "\<forall>y \<in> set (pxl_insert p c xs). pxl_pos y = p \<or> pxl_pos y \<in> pxl_pos ` set xs"
      using set_pos_insert [of p c xs] by auto
    ultimately have "\<forall>y \<in> set (pxl_insert p c xs). pxl_pos x < pxl_pos y"
      using x by auto
    with lt Cons.IH [OF xs] show ?thesis by simp
  qed
qed

lemma sorted_pxl_remove:
  assumes "sorted_wrt (<) (map pxl_pos ps)"
  shows "sorted_wrt (<) (map pxl_pos (pxl_remove i ps))"
proof (cases "i < length ps")
  case True
  have "sorted_wrt (<) (map pxl_pos (take i ps @ drop i ps))" using assms by simp
  then have a: "sorted_wrt (<) (map pxl_pos (take i ps))"
    and b: "sorted_wrt (<) (map pxl_pos (drop i ps))"
    and c: "\<forall>x \<in> set (take i ps). \<forall>y \<in> set (drop i ps). pxl_pos x < pxl_pos y"
    unfolding map_append sorted_wrt_append by auto
  have d: "set (drop (Suc i) ps) \<subseteq> set (drop i ps)"
    by (rule set_drop_subset_set_drop) simp
  have "sorted_wrt (<) (drop (Suc i) (map pxl_pos ps))"
    using assms by (rule sorted_wrt_drop)
  then have e: "sorted_wrt (<) (map pxl_pos (drop (Suc i) ps))"
    by (simp add: drop_map)
  from a c d e True show ?thesis
    by (auto simp: pxl_remove_def sorted_wrt_append)
next
  case False
  have "sorted_wrt (<) (take (length ps - 1) (map pxl_pos ps))"
    using assms by (rule sorted_wrt_take)
  with False show ?thesis by (simp add: pxl_remove_def butlast_conv_take take_map)
qed

lemma pxbuf_sorted_of:
  "length ps < 65536 \<Longrightarrow> pxbuf_sorted (pxbuf_of ps) = sorted_wrt (<) (map pxl_pos ps)"
  by (simp add: pxbuf_sorted_def pxbuf_of_size pxbuf_of_buf comp_def image_iff)


lemma pxbuf_remove_at_empty: "pxbuf_size b = 0 \<Longrightarrow> pxbuf_remove_at b p = Inr (False, b)"
  by (simp add: pxbuf_remove_at_def pxbuf_remove_at_scan.simps [of b p 0])

lemma pxbuf_remove_empty_changes: "pxbuf_remove pxbuf_init idx \<noteq> Inr pxbuf_init"
  by (simp add: pxbuf_remove_def pxbuf_init_def Let_def split: sum.split)

lemma length_pxl_remove: "ps \<noteq> [] \<Longrightarrow> length (pxl_remove i ps) = length ps - 1"
  by (auto simp: pxl_remove_def)

lemma pxbuf_init_of: "pxbuf_init = pxbuf_of []"
  by (simp add: pxbuf_init_def pxbuf_of_def)

section \<open>Sparse pixel buffer: the claims\<close>

text \<open>
  C5, as amended. On the empty buffer \<^verbatim>\<open>pxbuf_remove_at\<close> returns false for every
  position and leaves the buffer empty and unchanged. \<^verbatim>\<open>pxbuf_remove\<close> is not a no-op on
  the empty buffer, whatever the index: it never gives the empty buffer back. On a
  well-formed buffer that is not empty it succeeds and removes exactly one pixel: the one
  at the index, or the last one when the index is beyond the end.
\<close>

theorem pxbuf_remove_needs_nonempty:
  "pxbuf_remove_at pxbuf_init p = Inr (False, pxbuf_init) \<and>
   pxbuf_remove pxbuf_init idx \<noteq> Inr pxbuf_init \<and>
   (length ps < 65536 \<and> ps \<noteq> [] \<longrightarrow>
      pxbuf_remove (pxbuf_of ps) idx = Inr (pxbuf_of (pxl_remove (unat idx) ps)) \<and>
      length (pxl_remove (unat idx) ps) = length ps - 1)"
  by (simp add: pxbuf_remove_at_empty pxbuf_init_def [symmetric] pxbuf_remove_empty_changes
      pxbuf_remove_eq length_pxl_remove)
   (simp add: pxbuf_init_def pxbuf_remove_at_empty)

theorem pxbuf_remove_needs_nonempty_witness:
  "pxbuf_remove (pxbuf_of [\<lparr>pxl_pos = 2, pxl_rgb = (1, 1, 1)\<rparr>, \<lparr>pxl_pos = 5, pxl_rgb = (9, 9, 9)\<rparr>]) 0 =
     Inr (pxbuf_of [\<lparr>pxl_pos = 5, pxl_rgb = (9, 9, 9)\<rparr>]) \<and>
   pxbuf_remove (pxbuf_of [\<lparr>pxl_pos = 5, pxl_rgb = (9, 9, 9)\<rparr>]) 0 = Inr pxbuf_init"
  using pxbuf_remove_needs_nonempty [of 0 0 "[\<lparr>pxl_pos = 2, pxl_rgb = (1, 1, 1)\<rparr>, \<lparr>pxl_pos = 5, pxl_rgb = (9, 9, 9)\<rparr>]"]
    pxbuf_remove_needs_nonempty [of 0 0 "[\<lparr>pxl_pos = 5, pxl_rgb = (9, 9, 9)\<rparr>]"]
  by (simp add: pxl_remove_def pxbuf_of_def pxbuf_init_def)

text \<open>
  C5 as stated fails: \<^verbatim>\<open>pxbuf_remove\<close> at index 0 of the empty buffer decrements
  \<^verbatim>\<open>size\<close> to 65535 and reads cell 1 of a block that has no cell.
\<close>

theorem pxbuf_remove_empty_not_noop:
  "pxbuf_remove pxbuf_init 0 = Inl OutOfBounds \<and> pxbuf_remove pxbuf_init 0 \<noteq> Inr pxbuf_init"
  using pxbuf_remove_empty_oob by simp

text \<open>
  C7. On a well-formed buffer whose \<^verbatim>\<open>size\<close> has room for the insert,
  \<^verbatim>\<open>pxbuf_insert(pos, c)\<close> succeeds and \<^verbatim>\<open>pxbuf_exists(pos)\<close> is then true; a second
  \<^verbatim>\<open>pxbuf_insert(pos, c2)\<close> leaves \<^verbatim>\<open>size\<close> as it is and changes one cell only, the one
  that holds \<open>pos\<close>, from colour \<open>c\<close> to colour \<open>c2\<close>.
\<close>

theorem pxbuf_insert_exists_upsert:
  assumes "length ps < 65536" "length (pxl_insert p c ps) < 65536"
  shows "\<exists>b1 b2 k.
     pxbuf_insert (pxbuf_of ps) p c = Inr b1 \<and>
     pxbuf_exists b1 p = Inr True \<and>
     pxbuf_insert b1 p c2 = Inr b2 \<and>
     pxbuf_size b2 = pxbuf_size b1 \<and>
     k < length (pxbuf_buf b1) \<and>
     pxbuf_buf b1 ! k = Some \<lparr>pxl_pos = p, pxl_rgb = c\<rparr> \<and>
     pxbuf_buf b2 = (pxbuf_buf b1)[k := Some \<lparr>pxl_pos = p, pxl_rgb = c2\<rparr>]"
proof -
  let ?ps1 = "pxl_insert p c ps"
  obtain k where k: "k < length ?ps1" "?ps1 ! k = \<lparr>pxl_pos = p, pxl_rgb = c\<rparr>"
    and ow: "pxl_insert p c2 ?ps1 = ?ps1[k := \<lparr>pxl_pos = p, pxl_rgb = c2\<rparr>]"
    using pxl_insert_overwrite [of p c ps] by blast
  let ?ps2 = "?ps1[k := \<lparr>pxl_pos = p, pxl_rgb = c2\<rparr>]"
  have 1: "pxbuf_insert (pxbuf_of ps) p c = Inr (pxbuf_of ?ps1)"
    using assms by (rule pxbuf_insert_eq)
  have 2: "pxbuf_exists (pxbuf_of ?ps1) p = Inr True"
    using assms(2) by (simp add: pxbuf_exists_eq pxl_exists_insert)
  have 3: "pxbuf_insert (pxbuf_of ?ps1) p c2 = Inr (pxbuf_of ?ps2)"
    using pxbuf_insert_eq [of ?ps1 p c2] assms(2) by (simp add: ow)
  have 4: "pxbuf_size (pxbuf_of ?ps2) = pxbuf_size (pxbuf_of ?ps1)"
    by (simp add: pxbuf_of_def)
  have 5: "k < length (pxbuf_buf (pxbuf_of ?ps1))"
    "pxbuf_buf (pxbuf_of ?ps1) ! k = Some \<lparr>pxl_pos = p, pxl_rgb = c\<rparr>"
    "pxbuf_buf (pxbuf_of ?ps2) = (pxbuf_buf (pxbuf_of ?ps1))[k := Some \<lparr>pxl_pos = p, pxl_rgb = c2\<rparr>]"
    using k by (simp_all add: pxbuf_of_buf map_update)
  from 1 2 3 4 5 show ?thesis by blast
qed

theorem pxbuf_insert_exists_upsert_witness:
  "length [\<lparr>pxl_pos = 2, pxl_rgb = (4, 5, 6)\<rparr>, \<lparr>pxl_pos = 9, pxl_rgb = (0, 0, 1)\<rparr>] < 65536 \<and>
   length (pxl_insert 5 (1, 2, 3) [\<lparr>pxl_pos = 2, pxl_rgb = (4, 5, 6)\<rparr>, \<lparr>pxl_pos = 9, pxl_rgb = (0, 0, 1)\<rparr>]) < 65536 \<and>
   (\<exists>b1 b2 k.
     pxbuf_insert (pxbuf_of [\<lparr>pxl_pos = 2, pxl_rgb = (4, 5, 6)\<rparr>, \<lparr>pxl_pos = 9, pxl_rgb = (0, 0, 1)\<rparr>]) 5 (1, 2, 3) = Inr b1 \<and>
     pxbuf_exists b1 5 = Inr True \<and>
     pxbuf_insert b1 5 (7, 7, 7) = Inr b2 \<and>
     pxbuf_size b2 = pxbuf_size b1 \<and>
     k < length (pxbuf_buf b1) \<and>
     pxbuf_buf b1 ! k = Some \<lparr>pxl_pos = 5, pxl_rgb = (1, 2, 3)\<rparr> \<and>
     pxbuf_buf b2 = (pxbuf_buf b1)[k := Some \<lparr>pxl_pos = 5, pxl_rgb = (7, 7, 7)\<rparr>])"
  using pxbuf_insert_exists_upsert [of "[\<lparr>pxl_pos = 2, pxl_rgb = (4, 5, 6)\<rparr>, \<lparr>pxl_pos = 9, pxl_rgb = (0, 0, 1)\<rparr>]" 5 "(1, 2, 3)" "(7, 7, 7)"]
  by simp


lemma pxbuf_step_sorted:
  assumes "length ps < 65536" "sorted_wrt (<) (map pxl_pos ps)" "pxop_pre (pxbuf_of ps) x"
  shows "\<exists>qs. pxbuf_step (pxbuf_of ps) x = Inr (pxbuf_of qs) \<and> length qs < 65536 \<and>
     sorted_wrt (<) (map pxl_pos qs)"
proof (cases x)
  case (Insert p c)
  with assms(3) have "unat (pxbuf_size (pxbuf_of ps)) < 65535"
    by (simp add: word_less_nat_alt)
  then have "length ps < 65535" using assms(1) by (simp add: pxbuf_of_size)
  then have l: "length (pxl_insert p c ps) < 65536"
    using length_pxl_insert [of p c ps] by simp
  then have "pxbuf_step (pxbuf_of ps) x = Inr (pxbuf_of (pxl_insert p c ps))"
    using assms(1) Insert by (simp add: pxbuf_insert_eq)
  with l assms(2) show ?thesis using sorted_pxl_insert by blast
next
  case (Remove i)
  with assms(1,3) have ne: "ps \<noteq> []" by (simp add: pxbuf_of_size_0_iff)
  then have "pxbuf_step (pxbuf_of ps) x = Inr (pxbuf_of (pxl_remove (unat i) ps))"
    using assms(1) Remove by (simp add: pxbuf_remove_eq)
  moreover have "length (pxl_remove (unat i) ps) < 65536"
    using ne assms(1) by (simp add: length_pxl_remove)
  ultimately show ?thesis using assms(2) sorted_pxl_remove by blast
qed

lemma pxbuf_run_sorted:
  assumes "length ps < 65536" "sorted_wrt (<) (map pxl_pos ps)" "pxbuf_admissible (pxbuf_of ps) ops"
  shows "length (pxbuf_run (pxbuf_of ps) ops) = length ops \<and>
     list_all sorted_result (pxbuf_run (pxbuf_of ps) ops)"
  using assms
proof (induction ops arbitrary: ps)
  case Nil
  show ?case by simp
next
  case (Cons x xs)
  from Cons.prems have pre: "pxop_pre (pxbuf_of ps) x" by simp
  from pxbuf_step_sorted [OF Cons.prems(1,2) pre] obtain qs where
    qs: "pxbuf_step (pxbuf_of ps) x = Inr (pxbuf_of qs)" "length qs < 65536"
      "sorted_wrt (<) (map pxl_pos qs)" by blast
  with Cons.prems(3) have "pxbuf_admissible (pxbuf_of qs) xs" by simp
  from Cons.IH [OF qs(2,3) this] qs show ?case by (simp add: pxbuf_sorted_of)
qed

text \<open>
  C1, as amended. Start from the empty buffer and apply any admissible sequence of
  \<^verbatim>\<open>pxbuf_insert\<close> and \<^verbatim>\<open>pxbuf_remove\<close> calls (no \<^verbatim>\<open>pxbuf_remove\<close> on an empty buffer,
  no \<^verbatim>\<open>pxbuf_insert\<close> on a buffer of 65535 pixels). Then every call succeeds, and after
  every single call the positions in the buffer are strictly ascending, hence without
  duplicates.
\<close>

theorem pxbuf_run_sorted_unique:
  "pxbuf_admissible pxbuf_init ops \<Longrightarrow>
   length (pxbuf_run pxbuf_init ops) = length ops \<and>
   list_all sorted_result (pxbuf_run pxbuf_init ops)"
  unfolding pxbuf_init_of by (rule pxbuf_run_sorted) simp_all

theorem pxbuf_run_sorted_unique_witness:
  "pxbuf_admissible pxbuf_init
     [Insert 5 (1, 2, 3), Insert 2 (4, 5, 6), Insert 5 (7, 7, 7), Remove 0, Insert 9 (0, 0, 1), Remove 7, Remove 0] \<and>
   length (pxbuf_run pxbuf_init
     [Insert 5 (1, 2, 3), Insert 2 (4, 5, 6), Insert 5 (7, 7, 7), Remove 0, Insert 9 (0, 0, 1), Remove 7, Remove 0]) = 7 \<and>
   list_all sorted_result (pxbuf_run pxbuf_init
     [Insert 5 (1, 2, 3), Insert 2 (4, 5, 6), Insert 5 (7, 7, 7), Remove 0, Insert 9 (0, 0, 1), Remove 7, Remove 0])"
proof -
  have h: "pxbuf_admissible pxbuf_init
     [Insert 5 (1, 2, 3), Insert 2 (4, 5, 6), Insert 5 (7, 7, 7), Remove 0, Insert 9 (0, 0, 1), Remove 7, Remove 0]"
    by code_simp
  from pxbuf_run_sorted_unique [OF h] h show ?thesis by simp
qed

text \<open>
  C1 as stated fails: the sequence that consists of one \<^verbatim>\<open>pxbuf_remove\<close> at index 0,
  applied to the empty buffer, does not end in a sorted buffer.
\<close>

theorem pxbuf_run_remove_first_fails:
  "\<not> list_all sorted_result (pxbuf_run pxbuf_init [Remove 0])"
  by (simp add: pxbuf_remove_empty_oob)

section \<open>Projection of a sparse buffer\<close>

lemma strip_apply_all_loop_eq:
  "unat i \<le> unat n \<Longrightarrow>
   strip_apply_all_loop w n rgb i tr = tr @ concat (replicate (unat n - unat i) (tx_rgb w rgb))"
proof (induction "unat n - unat i" arbitrary: i tr)
  case 0
  then have "\<not> i < n" by (simp add: word_less_nat_alt)
  with 0 show ?case by (subst strip_apply_all_loop.simps) simp
next
  case (Suc k)
  then have c: "i < n" by (simp add: word_less_nat_alt)
  have u: "unat (i + 1) = Suc (unat i)" using c by (rule w16_Suc)
  have e: "unat n - unat i = Suc (unat n - unat (i + 1))" using Suc(2) u by simp
  have "strip_apply_all_loop w n rgb (i + 1) (tr @ tx_rgb w rgb) =
      (tr @ tx_rgb w rgb) @ concat (replicate (unat n - unat (i + 1)) (tx_rgb w rgb))"
    using Suc(2,3) u by (intro Suc(1)) simp_all
  then show ?case
    using c by (subst strip_apply_all_loop.simps) (simp add: e)
qed

lemma apply_sparse_none: "apply_sparse w n i [] = concat (replicate n [Tx_byte 0, Tx_byte 0, Tx_byte 0])"
  by (induction n arbitrary: i) simp_all

lemma tx_rgb_off: "tx_rgb w off = [Tx_byte 0, Tx_byte 0, Tx_byte 0]"
  by (cases w) (simp_all add: tx_rgb_def off_def)

lemma strip_apply_all_off:
  "strip_apply_all w n off = [Prep_tx] @ apply_sparse w (unat n) 0 [] @ [End_tx]"
  by (simp add: strip_apply_all_def strip_apply_all_loop_eq apply_sparse_none tx_rgb_off)

lemma strip_apply_pxbuf_loop_eq:
  assumes "length ps < 65536" "unat px_i \<le> length ps" "unat i \<le> unat n"
  shows "strip_apply_pxbuf_loop w n (pxbuf_of ps) i px_i tr =
     Inr (tr @ apply_sparse w (unat n - unat i) (unat i) (drop (unat px_i) ps))"
  using assms(2,3)
proof (induction "unat n - unat i" arbitrary: i px_i tr)
  case 0
  then have "\<not> i < n" by (simp add: word_less_nat_alt)
  with 0 show ?case by (subst strip_apply_pxbuf_loop.simps) simp
next
  case (Suc k)
  then have c: "i < n" by (simp add: word_less_nat_alt)
  have u: "unat (i + 1) = Suc (unat i)" using c by (rule w16_Suc)
  have e: "unat n - unat i = Suc (unat n - unat (i + 1))" using Suc(2) u by simp
  have k: "k = unat n - unat (i + 1)" using Suc(2) u by simp
  have le: "unat (i + 1) \<le> unat n" using Suc(2) u by simp
  show ?case
  proof (cases "px_i < pxbuf_size (pxbuf_of ps)")
    case True
    then have lt: "unat px_i < length ps"
      using assms(1) by (simp add: word_less_nat_alt pxbuf_of_size)
    have up: "unat (px_i + 1) = Suc (unat px_i)" using True by (rule w16_Suc)
    define px where "px = ps ! unat px_i"
    have d: "drop (unat px_i) ps = px # drop (Suc (unat px_i)) ps"
      using lt by (simp add: px_def Cons_nth_drop_Suc)
    have r: "rd (pxbuf_buf (pxbuf_of ps)) (unat px_i) = Inr px"
      using lt by (simp add: pxbuf_of_buf rd_Some px_def)
    show ?thesis
    proof (cases "i = pxl_pos px")
      case eq: True
      have "strip_apply_pxbuf_loop w n (pxbuf_of ps) (i + 1) (px_i + 1) (tr @ tx_rgb w (pxl_rgb px)) =
          Inr ((tr @ tx_rgb w (pxl_rgb px)) @
            apply_sparse w (unat n - unat (i + 1)) (unat (i + 1)) (drop (unat (px_i + 1)) ps))"
        using lt up le by (intro Suc(1) [OF k]) simp_all
      moreover have eq': "pxl_pos px = i" using eq by simp
      ultimately show ?thesis
        using c True
        by (subst strip_apply_pxbuf_loop.simps) (simp add: r e d u up)
    next
      case ne: False
      then have ne': "unat (pxl_pos px) \<noteq> unat i" by (simp add: word_unat_eq_iff)
      have "strip_apply_pxbuf_loop w n (pxbuf_of ps) (i + 1) px_i (tr @ [Tx_byte 0, Tx_byte 0, Tx_byte 0]) =
          Inr ((tr @ [Tx_byte 0, Tx_byte 0, Tx_byte 0]) @
            apply_sparse w (unat n - unat (i + 1)) (unat (i + 1)) (drop (unat px_i) ps))"
        using Suc(3) le by (intro Suc(1) [OF k]) simp_all
      then show ?thesis
        using c True ne ne'
        by (subst strip_apply_pxbuf_loop.simps) (simp add: r e d u)
    qed
  next
    case False
    then have "drop (unat px_i) ps = []"
      using assms(1) by (simp add: word_less_nat_alt pxbuf_of_size)
    moreover have "strip_apply_pxbuf_loop w n (pxbuf_of ps) (i + 1) px_i (tr @ [Tx_byte 0, Tx_byte 0, Tx_byte 0]) =
          Inr ((tr @ [Tx_byte 0, Tx_byte 0, Tx_byte 0]) @
            apply_sparse w (unat n - unat (i + 1)) (unat (i + 1)) (drop (unat px_i) ps))"
      using Suc(3) le by (intro Suc(1) [OF k]) simp_all
    ultimately show ?thesis
      using c False
      by (subst strip_apply_pxbuf_loop.simps) (simp add: e u)
  qed
qed

text \<open>
  C8. For every well-formed sparse buffer and every \<^verbatim>\<open>strip_size\<close>, \<^verbatim>\<open>strip_apply_pxbuf\<close>
  sends one begin, then for each physical position from 0 to \<open>strip_size - 1\<close>, in
  order, either the three colour bytes of the next pending pixel (when its position is
  that position; the cursor then moves on) or three zero bytes, then one end: this is
  \<open>apply_sparse\<close>. On the empty buffer it is \<^verbatim>\<open>strip_apply_all\<close> with black, which
  sends three zero bytes for every position.
\<close>

theorem strip_apply_pxbuf_projects_sparse:
  "(length ps < 65536 \<longrightarrow>
      strip_apply_pxbuf w strip_size (pxbuf_of ps) =
        Inr ([Prep_tx] @ apply_sparse w (unat strip_size) 0 ps @ [End_tx])) \<and>
   strip_apply_pxbuf w strip_size pxbuf_init = Inr (strip_apply_all w strip_size off) \<and>
   strip_apply_all w strip_size off =
     [Prep_tx] @ concat (replicate (unat strip_size) [Tx_byte 0, Tx_byte 0, Tx_byte 0]) @ [End_tx]"
proof (intro conjI impI)
  assume l: "length ps < 65536"
  show "strip_apply_pxbuf w strip_size (pxbuf_of ps) =
        Inr ([Prep_tx] @ apply_sparse w (unat strip_size) 0 ps @ [End_tx])"
  proof (cases "ps = []")
    case True
    then show ?thesis
      using strip_apply_all_off [of w strip_size] by (simp add: strip_apply_pxbuf_def pxbuf_of_def)
  next
    case False
    then have "pxbuf_size (pxbuf_of ps) \<noteq> 0" using l by (simp add: pxbuf_of_size_0_iff)
    then show ?thesis
      using strip_apply_pxbuf_loop_eq [OF l, of 0 0 strip_size w "[Prep_tx]"]
      by (simp add: strip_apply_pxbuf_def)
  qed
next
  show "strip_apply_pxbuf w strip_size pxbuf_init = Inr (strip_apply_all w strip_size off)"
    by (simp add: strip_apply_pxbuf_def pxbuf_init_def)
next
  show "strip_apply_all w strip_size off =
     [Prep_tx] @ concat (replicate (unat strip_size) [Tx_byte 0, Tx_byte 0, Tx_byte 0]) @ [End_tx]"
    by (simp add: strip_apply_all_def strip_apply_all_loop_eq tx_rgb_off)
qed

theorem strip_apply_pxbuf_projects_sparse_witness:
  "strip_apply_pxbuf GRB 4 (pxbuf_of [\<lparr>pxl_pos = 1, pxl_rgb = (1, 2, 3)\<rparr>, \<lparr>pxl_pos = 3, pxl_rgb = (7, 8, 9)\<rparr>]) =
     Inr [Prep_tx, Tx_byte 0, Tx_byte 0, Tx_byte 0, Tx_byte 2, Tx_byte 1, Tx_byte 3,
          Tx_byte 0, Tx_byte 0, Tx_byte 0, Tx_byte 8, Tx_byte 7, Tx_byte 9, End_tx]"
proof -
  have u: "unat (4 :: 16 word) = Suc (Suc (Suc (Suc 0)))" by simp
  have a: "apply_sparse GRB (Suc (Suc (Suc (Suc 0)))) 0
      [\<lparr>pxl_pos = 1, pxl_rgb = (1, 2, 3)\<rparr>, \<lparr>pxl_pos = 3, pxl_rgb = (7, 8, 9)\<rparr>] =
     [Tx_byte 0, Tx_byte 0, Tx_byte 0, Tx_byte 2, Tx_byte 1, Tx_byte 3,
      Tx_byte 0, Tx_byte 0, Tx_byte 0, Tx_byte 8, Tx_byte 7, Tx_byte 9]"
    by (simp add: tx_rgb_def)
  from strip_apply_pxbuf_projects_sparse
    [of "[\<lparr>pxl_pos = 1, pxl_rgb = (1, 2, 3)\<rparr>, \<lparr>pxl_pos = 3, pxl_rgb = (7, 8, 9)\<rparr>]" GRB 4]
  show ?thesis by (simp only: u a) simp
qed

section \<open>The override wipe\<close>

lemma unat_w16_eq: "n < 65536 \<Longrightarrow> unat (w16 n) = n"
  by (simp add: w16_def unat_of_nat16)

lemma w16_unat: "w16 (unat x) = x"
  by (simp add: w16_def)

lemma w16_0: "w16 0 = 0" and w16_255: "w16 255 = 255"
  by (simp_all add: w16_def)

lemma w16_succ: "w16 (Suc n) = w16 n + 1"
  by (simp add: w16_def)

lemma strip_override_loop_eq:
  assumes "unat p < 65535" "unat i \<le> Suc (unat p)"
  shows "strip_override_loop w rgb p i tr =
     Some (tr @ concat (replicate (Suc (unat p) - unat i) (tx_rgb w rgb)))"
  using assms(2)
proof (induction "Suc (unat p) - unat i" arbitrary: i tr)
  case 0
  then have "unat i = Suc (unat p)" by simp
  then have "\<not> i \<le> p" by (simp add: word_le_nat_alt)
  with 0 show ?case by (subst strip_override_loop.simps) simp
next
  case (Suc k)
  then have le: "unat i \<le> unat p" by simp
  then have c: "i \<le> p" by (simp add: word_le_nat_alt)
  have u: "unat (i + 1) = Suc (unat i)"
    using le assms(1) by (simp add: unat_plus_if')
  have e: "Suc (unat p) - unat i = Suc (Suc (unat p) - unat (i + 1))" using le u by simp
  have "strip_override_loop w rgb p (i + 1) (tr @ tx_rgb w rgb) =
      Some ((tr @ tx_rgb w rgb) @ concat (replicate (Suc (unat p) - unat (i + 1)) (tx_rgb w rgb)))"
    using Suc(2) le u by (intro Suc(1)) simp_all
  then show ?case
    using c by (subst strip_override_loop.simps) (simp add: e)
qed

lemma strip_override_done: "strip_override w L rgb delay ms L = Some (True, 0, [])"
  by (simp add: strip_override_def)

lemma strip_override_wait:
  "p \<noteq> L \<Longrightarrow> ms < ucast delay \<Longrightarrow> strip_override w L rgb delay ms p = Some (False, p, [])"
  by (simp add: strip_override_def)

lemma strip_override_tick:
  assumes "unat p < unat L" "\<not> ms < ucast delay"
  shows "strip_override w L rgb delay ms p =
     Some (False, p + 1, [Prep_tx] @ concat (replicate (Suc (unat p)) (tx_rgb w rgb)) @ [End_tx, Reset_timer])"
proof -
  have "p \<noteq> L" using assms(1) by auto
  moreover have "unat p < 65535" using assms(1) unat_w16_lt [of L] by simp
  then have "strip_override_loop w rgb p 0 [Prep_tx] =
      Some ([Prep_tx] @ concat (replicate (Suc (unat p)) (tx_rgb w rgb)))"
    using strip_override_loop_eq [of p 0 w rgb "[Prep_tx]"] by simp
  ultimately show ?thesis using assms(2) by (simp add: strip_override_def)
qed

lemma ticks_Cons: "ticks delay (ms # mss) = (if ms < ucast delay then 0 else 1) + ticks delay mss"
  by (simp add: ticks_def)

lemma strip_override_run_eq:
  assumes "mss \<noteq> [] \<longrightarrow> k + ticks delay (butlast mss) < unat L"
  shows "strip_override_run w L rgb delay (w16 k) mss =
     Some (wipe_calls w rgb delay k mss, w16 (k + ticks delay mss))"
  using assms
proof (induction mss arbitrary: k)
  case Nil
  show ?case by (simp add: ticks_def)
next
  case (Cons ms mss)
  have kl: "k < unat L" using Cons.prems by simp
  then have uk: "unat (w16 k) = k"
    using unat_w16_lt [of L] by (simp add: unat_w16_eq)
  show ?case
  proof (cases "ms < ucast delay")
    case True
    have ne: "w16 k \<noteq> L" using kl uk by auto
    have "mss \<noteq> [] \<longrightarrow> k + ticks delay (butlast mss) < unat L"
      using Cons.prems True by (auto simp: ticks_Cons split: if_splits)
    from Cons.IH [OF this] True ne show ?thesis
      by (simp add: strip_override_wait ticks_Cons)
  next
    case False
    have "mss \<noteq> [] \<longrightarrow> Suc k + ticks delay (butlast mss) < unat L"
      using Cons.prems False by (auto simp: ticks_Cons split: if_splits)
    from Cons.IH [OF this]
    have IH: "strip_override_run w L rgb delay (w16 k + 1) mss =
        Some (wipe_calls w rgb delay (Suc k) mss, w16 (Suc (k + ticks delay mss)))"
      by (simp add: w16_succ)
    have t: "strip_override w L rgb delay ms (w16 k) =
        Some (False, w16 k + 1, [Prep_tx] @ concat (replicate (Suc k) (tx_rgb w rgb)) @ [End_tx, Reset_timer])"
      using strip_override_tick [of "w16 k" L ms delay w rgb] False kl uk by simp
    show ?thesis
      using False by (simp only: strip_override_run.simps t IH option.case prod.case wipe_calls.simps if_False ticks_Cons)
        simp
  qed
qed

lemma wipe_calls_false: "list_all (\<lambda>r. \<not> fst r) (wipe_calls w rgb delay k mss)"
  by (induction mss arbitrary: k) simp_all

text \<open>
  C6. Take a strip of size \<open>L\<close> (at least 1, as the hypothesis requires), any delay and
  any run of calls of \<^verbatim>\<open>strip_override\<close> that starts with the cursor at 0 and in which
  fewer than \<open>L\<close> calls have passed the delay check before the last call. Then every call
  of the run returns false; a call that passes the check paints the pixels from 0 to the
  cursor and advances the cursor by one, the others do nothing; the cursor ends at the
  number of ticks, which is at most \<open>L\<close>. So the cursor is at \<open>L\<close> after exactly \<open>L\<close> ticks
  and not before, and the call that finds it there returns true and resets it to 0.
\<close>

theorem strip_override_wipe:
  assumes "ticks delay (butlast mss) < unat L"
  shows "strip_override_run w L rgb delay 0 mss =
           Some (wipe_calls w rgb delay 0 mss, w16 (ticks delay mss)) \<and>
         list_all (\<lambda>r. \<not> fst r) (wipe_calls w rgb delay 0 mss) \<and>
         ticks delay mss \<le> unat L \<and>
         strip_override w L rgb delay ms L = Some (True, 0, [])"
proof (intro conjI)
  show "strip_override_run w L rgb delay 0 mss =
           Some (wipe_calls w rgb delay 0 mss, w16 (ticks delay mss))"
    using strip_override_run_eq [of mss 0 delay L w rgb] assms by (simp add: w16_0)
  show "list_all (\<lambda>r. \<not> fst r) (wipe_calls w rgb delay 0 mss)"
    by (rule wipe_calls_false)
  show "ticks delay mss \<le> unat L"
  proof (cases mss rule: rev_cases)
    case Nil
    then show ?thesis by (simp add: ticks_def)
  next
    case (snoc xs x)
    with assms show ?thesis by (simp add: ticks_def)
  qed
  show "strip_override w L rgb delay ms L = Some (True, 0, [])"
    by (rule strip_override_done)
qed

theorem strip_override_wipe_witness:
  "ticks 10 (butlast [5, 10, 3, 200, 11]) < unat (3 :: 16 word) \<and>
   strip_override_run RGB 3 (9, 8, 7) 10 0 [5, 10, 3, 200, 11] =
     Some ([(False, []),
            (False, [Prep_tx, Tx_byte 9, Tx_byte 8, Tx_byte 7, End_tx, Reset_timer]),
            (False, []),
            (False, [Prep_tx, Tx_byte 9, Tx_byte 8, Tx_byte 7, Tx_byte 9, Tx_byte 8, Tx_byte 7,
                     End_tx, Reset_timer]),
            (False, [Prep_tx, Tx_byte 9, Tx_byte 8, Tx_byte 7, Tx_byte 9, Tx_byte 8, Tx_byte 7,
                     Tx_byte 9, Tx_byte 8, Tx_byte 7, End_tx, Reset_timer])], 3) \<and>
   strip_override RGB 3 (9, 8, 7) 10 0 3 = Some (True, 0, [])"
proof -
  have h: "ticks 10 (butlast [5, 10, 3, 200, 11]) < unat (3 :: 16 word)"
    by (simp add: ticks_def)
  have t: "ticks 10 [5, 10, 3, 200, 11] = 3" by (simp add: ticks_def)
  from strip_override_wipe [OF h, of RGB "(9, 8, 7)" 0] h show ?thesis
    by (simp add: t tx_rgb_def w16_def)
qed


section \<open>The brightness fade\<close>

lemma sint16_mod: "sint x = (uint x + 32768) mod 65536 - 32768" for x :: "16 word"
  by (simp add: sint_uint signed_take_bit_eq_take_bit_shift take_bit_eq_mod)

lemma uint16_unat: "uint x = int (unat x)" for x :: "16 word"
  by simp

lemma sint16_pos:
  fixes x :: "16 word"
  assumes "unat x < 32768"
  shows "sint x = int (unat x)"
proof -
  define k where "k = int (unat x)"
  have k: "0 \<le> k" "k < 32768" using assms by (simp_all add: k_def del: of_nat_unat)
  then have "(k + 32768) mod 65536 = k + 32768" by (intro mod_pos_pos_trivial) simp_all
  then have "(k + 32768) mod 65536 - 32768 = k" by simp
  then show ?thesis unfolding k_def sint16_mod uint16_unat .
qed

lemma sint16_neg:
  fixes x :: "16 word"
  assumes "32768 \<le> unat x"
  shows "sint x < 0"
proof -
  define k where "k = int (unat x)"
  have k: "32768 \<le> k" "k < 65536" using assms unat_w16_lt [of x] by (simp_all add: k_def del: of_nat_unat)
  have "(k - 32768 + 65536) mod 65536 = (k - 32768) mod 65536" by (rule mod_add_self2)
  moreover have "(k - 32768) mod 65536 = k - 32768" using k by (intro mod_pos_pos_trivial) simp_all
  moreover have "k - 32768 + 65536 = k + 32768" by simp
  ultimately have "(k + 32768) mod 65536 = k - 32768" by simp
  then have "(k + 32768) mod 65536 - 32768 < 0" using k by simp
  then show ?thesis unfolding k_def sint16_mod uint16_unat .
qed

lemma sle_255: "unat x < 32768 \<Longrightarrow> (255 \<le>s x) = (255 \<le> unat x)" for x :: "16 word"
  using sint16_pos [of x] by (simp add: word_sle_eq del: of_nat_unat)

lemma sless_255: "unat x < 32768 \<Longrightarrow> (x <s 255) = (unat x < 255)" for x :: "16 word"
  using sint16_pos [of x] by (simp add: word_sless_alt del: of_nat_unat)

lemma sless_0: "(x <s 0) = (32768 \<le> unat x)" for x :: "16 word"
proof (cases "32768 \<le> unat x")
  case True
  then show ?thesis using sint16_neg [of x] by (simp add: word_sless_alt)
next
  case False
  then have "sint x = int (unat x)" by (intro sint16_pos) simp
  then have "\<not> sint x < 0" by (simp del: of_nat_unat)
  with False show ?thesis by (simp add: word_sless_alt)
qed

lemma unat_add16: "unat x + unat y < 65536 \<Longrightarrow> unat (x + y) = unat x + unat y" for x y :: "16 word"
  by (simp add: unat_plus_if')

lemma fade_rising:
  assumes "inc st" "unat (brightness st) + unat s < 32768"
  shows "rgb_apply_brightness_fade scale rgb s False st =
     (unat (brightness st) + unat s = 0,
      scale rgb (ucast (w16 (min 255 (unat (brightness st) + unat s)))),
      \<lparr>inc = (unat (brightness st) + unat s < 255),
       brightness = w16 (min 255 (unat (brightness st) + unat s))\<rparr>)"
proof -
  define x where "x = brightness st + s"
  have u: "unat x = unat (brightness st) + unat s"
    using assms(2) by (simp add: x_def unat_add16)
  have lt: "unat x < 32768" using assms(2) u by simp
  show ?thesis
  proof (cases "255 \<le> unat x")
    case True
    then have "255 \<le>s x" using lt by (simp add: sle_255)
    moreover have "min 255 (unat x) = 255" using True by simp
    ultimately show ?thesis
      using assms(1) True by (simp add: rgb_apply_brightness_fade_def Let_def w16_255 flip: x_def u)
  next
    case False
    then have n: "\<not> 255 \<le>s x" using lt by (simp add: sle_255)
    have m: "min 255 (unat x) = unat x" using False by simp
    have s: "(x <s 255) = (unat x < 255)" using lt by (rule sless_255)
    have z: "(x = 0) = (unat x = 0)" by (simp add: unat_0_iff)
    show ?thesis
      using assms(1) n False
      by (simp add: rgb_apply_brightness_fade_def Let_def m s z w16_unat flip: x_def u)
  qed
qed

lemma fade_falling:
  assumes "\<not> inc st" "unat (brightness st) < 32768" "unat s < 32768"
  shows "rgb_apply_brightness_fade scale rgb s False st =
     (unat (brightness st) \<le> unat s,
      scale rgb (ucast (w16 (unat (brightness st) - unat s))),
      \<lparr>inc = (unat (brightness st) \<le> unat s),
       brightness = w16 (unat (brightness st) - unat s)\<rparr>)"
proof -
  define x where "x = brightness st - s"
  show ?thesis
  proof (cases "unat s \<le> unat (brightness st)")
    case True
    then have u: "unat x = unat (brightness st) - unat s" by (simp add: x_def unat_sub16)
    then have "\<not> x <s 0" using assms(2) by (simp add: sless_0)
    moreover have "(x = 0) = (unat (brightness st) \<le> unat s)"
      using True u by (auto simp: unat_0_iff [symmetric] simp del: unat_0_iff unat_eq_0)
    moreover have "w16 (unat (brightness st) - unat s) = x"
      using u w16_unat [of x] by simp
    ultimately show ?thesis
      using assms(1) by (simp add: rgb_apply_brightness_fade_def Let_def flip: x_def)
  next
    case False
    then have "unat x = unat (brightness st) + 65536 - unat s"
      by (simp add: x_def unat_sub_if')
    then have "32768 \<le> unat x" using assms(3) by simp
    then have "x <s 0" by (simp add: sless_0)
    then show ?thesis
      using assms(1) False by (simp add: rgb_apply_brightness_fade_def Let_def w16_0 flip: x_def)
  qed
qed

lemma fade_start:
  "rgb_apply_brightness_fade scale rgb s True st =
   rgb_apply_brightness_fade scale rgb s False \<lparr>inc = True, brightness = 0\<rparr>"
  by (simp add: rgb_apply_brightness_fade_def)

lemma fade_up_less_iff: "0 < s \<Longrightarrow> (j < fade_up s) = (j * s < 255)"
proof -
  assume s: "0 < s"
  have "(j < fade_up s) = (j \<le> 254 div s)" by (auto simp: fade_up_def)
  also have "\<dots> = (j * s \<le> 254)" using s by (rule less_eq_div_iff_mult_less_eq)
  finally show ?thesis by auto
qed

lemma fade_up_reaches: "0 < s \<Longrightarrow> 255 \<le> fade_up s * s"
  using fade_up_less_iff [of s "fade_up s"] by simp

lemma fade_up_pos: "0 < fade_up s"
  by (simp add: fade_up_def)

lemma unat_of_nat_255: "n \<le> 255 \<Longrightarrow> unat (w16 n) = n"
  by (simp add: unat_w16_eq)

lemma triangle_le: "triangle s k \<le> 255"
  by (simp add: triangle_def Let_def)

lemma fade_call:
  assumes s: "0 < unat s" "unat s < 32768"
  shows "rgb_apply_brightness_fade scale rgb s False
       \<lparr>inc = (k mod (2 * fade_up (unat s)) < fade_up (unat s)),
        brightness = w16 (triangle (unat s) k)\<rparr> =
     (Suc k mod (2 * fade_up (unat s)) = 0,
      scale rgb (ucast (w16 (triangle (unat s) (Suc k)))),
      \<lparr>inc = (Suc k mod (2 * fade_up (unat s)) < fade_up (unat s)),
       brightness = w16 (triangle (unat s) (Suc k))\<rparr>)"
proof -
  define n where "n = unat s"
  define u where "u = fade_up n"
  define j where "j = k mod (2 * u)"
  let ?st = "\<lparr>inc = (j < u), brightness = w16 (triangle n k) :: 16 word\<rparr>"
  have n: "0 < n" "n < 32768" using s by (simp_all add: n_def)
  have u: "0 < u" by (simp add: u_def fade_up_pos)
  have j2: "j < 2 * u" using u by (simp add: j_def)
  have less: "(i < u) = (i * n < 255)" for i
    using n(1) by (simp add: u_def fade_up_less_iff)
  have reach: "255 \<le> u * n" using n(1) by (simp add: u_def fade_up_reaches)
  have sucj: "Suc k mod (2 * u) = (if Suc j = 2 * u then 0 else Suc j)"
    by (simp add: j_def mod_Suc)
  have b: "unat (brightness ?st) = triangle n k"
    using triangle_le [of n k] by (simp add: unat_of_nat_255)
  show ?thesis
  proof (cases "j < u")
    case True
    then have jn: "j * n < 255" by (simp add: less)
    have tk: "triangle n k = j * n"
      using True jn by (simp add: triangle_def Let_def flip: u_def j_def)
    have small: "j * n + n < 32768"
    proof (cases "n < 255")
      case True
      with jn show ?thesis by simp
    next
      case False
      with jn have "j = 0" by (cases j) simp_all
      with n show ?thesis by simp
    qed
    have sj: "Suc k mod (2 * u) = Suc j" using True sucj by simp
    have tk': "triangle n (Suc k) = min 255 (j * n + n)"
      using True by (simp add: triangle_def Let_def sj flip: u_def)
    have inc': "(j * n + n < 255) = (Suc j < u)" using less [of "Suc j"] by (simp add: ac_simps)
    have "rgb_apply_brightness_fade scale rgb s False ?st =
        (False, scale rgb (ucast (w16 (min 255 (j * n + n)))),
         \<lparr>inc = (j * n + n < 255), brightness = w16 (min 255 (j * n + n))\<rparr>)"
      using fade_rising [of ?st s scale rgb] True small n(1) b
      by (simp add: tk flip: n_def)
    then show ?thesis
      using True by (simp add: tk' inc' sj flip: n_def u_def j_def)
  next
    case False
    then have ju: "u \<le> j" by simp
    have d: "j - u < u" using j2 ju by simp
    then have dn: "(j - u) * n < 255" by (simp add: less)
    have tk: "triangle n k = 255 - (j - u) * n"
    proof (cases "j = u")
      case True
      then show ?thesis using reach by (simp add: triangle_def Let_def flip: u_def j_def)
    next
      case F: False
      then show ?thesis using ju dn by (simp add: triangle_def Let_def flip: u_def j_def)
    qed
    define m where "m = (j - u) * n"
    have m': "(Suc j - u) * n = m + n" using ju by (simp add: Suc_diff_le m_def)
    have sub: "255 - ((j - u) * n + n) = 255 - min 255 ((Suc j - u) * n)"
      unfolding m' m_def [symmetric] by linarith
    have le: "(255 - (j - u) * n \<le> n) = (Suc j = 2 * u)"
    proof -
      have "(255 - (j - u) * n \<le> n) = (255 \<le> (Suc j - u) * n)"
        unfolding m' m_def [symmetric] by linarith
      also have "\<dots> = (\<not> Suc j - u < u)" unfolding less [of "Suc j - u"] by (rule not_less [symmetric])
      also have "\<dots> = (Suc j = 2 * u)" using j2 ju by auto
      finally show ?thesis .
    qed
    have call: "rgb_apply_brightness_fade scale rgb s False ?st =
        (Suc j = 2 * u, scale rgb (ucast (w16 (255 - min 255 ((Suc j - u) * n)))),
         \<lparr>inc = (Suc j = 2 * u), brightness = w16 (255 - min 255 ((Suc j - u) * n))\<rparr>)"
      using fade_falling [of ?st s scale rgb] False n b triangle_le [of n k]
      by (simp add: tk le sub flip: n_def)
    show ?thesis
    proof (cases "Suc j = 2 * u")
      case True
      then have sj: "Suc k mod (2 * u) = 0" using sucj by simp
      have e: "Suc j - u = u" using True by simp
      have tk': "triangle n (Suc k) = 0"
        by (simp add: triangle_def Let_def sj flip: u_def)
      have "255 - min 255 ((Suc j - u) * n) = 0" using reach e by simp
      then show ?thesis
        using call True False u by (simp add: sj tk' flip: n_def u_def j_def)
    next
      case F: False
      then have sj: "Suc k mod (2 * u) = Suc j" using sucj by simp
      have tk': "triangle n (Suc k) = 255 - min 255 ((Suc j - u) * n)"
        using ju by (simp add: triangle_def Let_def sj flip: u_def)
      show ?thesis
        using call F False ju by (simp add: sj tk' flip: n_def u_def j_def)
    qed
  qed
qed

lemma fade_run_closed_form:
  assumes s: "0 < unat s" "unat s < 32768"
  shows "fade_run scale rgb s st0 n =
     (Suc n mod (2 * fade_up (unat s)) = 0,
      scale rgb (ucast (w16 (triangle (unat s) (Suc n)))),
      \<lparr>inc = (Suc n mod (2 * fade_up (unat s)) < fade_up (unat s)),
       brightness = w16 (triangle (unat s) (Suc n))\<rparr>)"
proof (induction n)
  case 0
  have "triangle (unat s) 0 = 0" by (simp add: triangle_def)
  then show ?case
    using fade_call [OF s, of scale rgb 0] by (simp add: fade_start fade_up_pos w16_0)
next
  case (Suc n)
  show ?case using fade_call [OF s, of scale rgb "Suc n"] by (simp add: Suc)
qed

lemma triangle_zero_iff: "0 < s \<Longrightarrow> (triangle s k = 0) = (k mod (2 * fade_up s) = 0)"
proof -
  assume s: "0 < s"
  define u where "u = fade_up s"
  define j where "j = k mod (2 * u)"
  have u: "0 < u" by (simp add: u_def fade_up_pos)
  have j2: "j < 2 * u" using u by (simp add: j_def)
  have less: "(i < u) = (i * s < 255)" for i
    using s by (simp add: u_def fade_up_less_iff)
  show ?thesis
  proof (cases "j \<le> u")
    case True
    moreover have "(min 255 (j * s) = 0) = (j = 0)" using s by (cases j) simp_all
    ultimately show ?thesis by (simp add: triangle_def Let_def flip: u_def j_def)
  next
    case False
    then have "j - u < u" using j2 by simp
    then have "(j - u) * s < 255" by (simp add: less)
    with False show ?thesis by (simp add: triangle_def Let_def flip: u_def j_def)
  qed
qed

text \<open>
  C9, as amended. For every step size from 1 to 32767 and every run of calls of
  \<^verbatim>\<open>rgb_apply_brightness_fade\<close> whose first call has \<^verbatim>\<open>start = true\<close>, the brightness after
  call \<open>k\<close> is \<open>triangle s k\<close>: it rises by the step size per call up to 255, where the
  direction flips, falls by the step size per call down to 0, where it flips again, and
  stays between 0 and 255. A call returns true exactly when it ends a falling phase, that
  is when the brightness is 0 again: in the calls whose number is a multiple of the
  period \<open>2 * fade_up s\<close>, and in no other.
\<close>

theorem rgb_apply_brightness_fade_triangle:
  assumes "0 < unat step_size" "unat step_size < 32768"
  shows "fade_run scale rgb step_size st0 n =
           (Suc n mod (2 * fade_up (unat step_size)) = 0,
            scale rgb (ucast (w16 (triangle (unat step_size) (Suc n)))),
            \<lparr>inc = (Suc n mod (2 * fade_up (unat step_size)) < fade_up (unat step_size)),
             brightness = w16 (triangle (unat step_size) (Suc n))\<rparr>) \<and>
         triangle (unat step_size) (Suc n) \<le> 255 \<and>
         (triangle (unat step_size) (Suc n) = 0) = (Suc n mod (2 * fade_up (unat step_size)) = 0)"
  using assms by (simp add: fade_run_closed_form triangle_le triangle_zero_iff)

theorem rgb_apply_brightness_fade_triangle_witness:
  "0 < unat (100 :: 16 word) \<and> unat (100 :: 16 word) < 32768 \<and>
   fade_run rgb_apply_brightness (255, 0, 0) 100 fade_state_init 2 =
     (False, (255, 0, 0), \<lparr>inc = False, brightness = 255\<rparr>) \<and>
   fade_run rgb_apply_brightness (255, 0, 0) 100 fade_state_init 5 =
     (True, (0, 0, 0), \<lparr>inc = True, brightness = 0\<rparr>)"
proof -
  have h: "0 < unat (100 :: 16 word)" "unat (100 :: 16 word) < 32768" by simp_all
  have u: "fade_up (unat (100 :: 16 word)) = 3" by (simp add: fade_up_def)
  have t: "triangle (unat (100 :: 16 word)) (Suc 2) = 255" "triangle (unat (100 :: 16 word)) (Suc 5) = 0"
    by (simp_all add: triangle_def fade_up_def)
  have m: "Suc 2 mod (2 * 3) = 3" "Suc 5 mod (2 * 3) = 0" by simp_all
  from rgb_apply_brightness_fade_triangle [OF h, of rgb_apply_brightness "(255, 0, 0)" fade_state_init 2]
    rgb_apply_brightness_fade_triangle [OF h, of rgb_apply_brightness "(255, 0, 0)" fade_state_init 5]
  show ?thesis
    unfolding u t m by (simp add: w16_def scale_channel_def)
qed

text \<open>
  C9 as stated fails at both ends of the range of \<^verbatim>\<open>step_size\<close>. With step size 0 the
  first call already returns true, although the brightness has not moved. With step
  size 65535 the 16-bit \<^verbatim>\<open>int\<close> addition gives the brightness \<open>-1\<close> after the first call
  and \<open>-2\<close> after the second, outside 0..255 and falling while \<^verbatim>\<open>inc\<close> stays true.
\<close>

theorem rgb_apply_brightness_fade_step_0_and_65535:
  "fst (fade_run rgb_apply_brightness (255, 0, 0) 0 fade_state_init 0) = True \<and>
   snd (snd (fade_run rgb_apply_brightness (255, 0, 0) 0 fade_state_init 0)) =
     \<lparr>inc = True, brightness = 0\<rparr> \<and>
   sint (brightness (snd (snd (fade_run rgb_apply_brightness (255, 0, 0) 65535 fade_state_init 0)))) = - 1 \<and>
   inc (snd (snd (fade_run rgb_apply_brightness (255, 0, 0) 65535 fade_state_init 1))) = True \<and>
   sint (brightness (snd (snd (fade_run rgb_apply_brightness (255, 0, 0) 65535 fade_state_init 1)))) = - 2"
  by (simp add: rgb_apply_brightness_fade_def fade_state_init_def Let_def word_sle_eq word_sless_alt)

end
